theory Spec2Isabelle
  imports
    Main
    "HOL-Library.Word"
    "HOL-Library.Char_ord"
    "HOL-Library.List_Lexorder"
    "HOL-Library.Product_Lexorder"
begin

unbundle bit_operations_syntax

section \<open>Data of package structs\<close>

text \<open>
  The replicated state machine of \<^verbatim>\<open>consul/fsm.go\<close> works on the request and entity
  structs of package \<^verbatim>\<open>structs\<close>. Go's \<^verbatim>\<open>uint64\<close> is a 64-bit word, a
  \<^verbatim>\<open>byte\<close> an 8-bit word, a \<^verbatim>\<open>string\<close> a list of bytes (\<^typ>\<open>string\<close>), a nil-able
  pointer an \<^typ>\<open>'a option\<close>. Every entity embeds \<^verbatim>\<open>RaftIndex\<close>; the embedding is a
  record extension, so \<open>CreateIndex\<close> and \<open>ModifyIndex\<close> read every entity.
\<close>

type_synonym uint64 = "64 word"
type_synonym byte = "8 word"

record RaftIndex =
  CreateIndex :: uint64
  ModifyIndex :: uint64

record Node = RaftIndex +
  Node :: string
  Address :: string

record NodeService = RaftIndex +
  ID :: string
  Service :: string
  Tags :: "string list"
  Address :: string
  Port :: int

record HealthCheck = RaftIndex +
  Node :: string
  CheckID :: string
  Name :: string
  Status :: string
  Notes :: string
  Output :: string
  ServiceID :: string
  ServiceName :: string

record DirEntry = RaftIndex +
  LockIndex :: uint64
  Key :: string
  Flags :: uint64
  Value :: "byte list"
  Session :: string

record Session = RaftIndex +
  ID :: string
  Name :: string
  Node :: string
  Checks :: "string list"
  LockDelay :: uint64
  Behavior :: string
  TTL :: string

record ACL = RaftIndex +
  ID :: string
  Name :: string
  Type :: string
  Rules :: string

record Tombstone =
  Key :: string
  Index :: uint64

record RegisterRequest =
  Datacenter :: string
  Node :: string
  Address :: string
  Service :: "NodeService option"
  Check :: "HealthCheck option"
  Checks :: "HealthCheck list"

record DeregisterRequest =
  Datacenter :: string
  Node :: string
  ServiceID :: string
  CheckID :: string

record KVSRequest =
  Datacenter :: string
  Op :: string
  DirEnt :: DirEntry

record SessionRequest =
  Datacenter :: string
  Op :: string
  Session :: Session

record ACLRequest =
  Datacenter :: string
  Op :: string
  ACL :: ACL

record TombstoneRequest =
  Datacenter :: string
  Op :: string
  ReapIndex :: uint64

text \<open>
  Modelled from the spec: the message type constants and operation names of package
  \<^verbatim>\<open>structs\<close>, which is not among the source files. The spec (section 6) lists the six
  recognised message types in this order and says that the high bit of the type byte
  means ignore-if-unknown; the operation names are those of the K/V, session, ACL and
  tombstone requests listed there.
\<close>

definition RegisterRequestType :: byte where "RegisterRequestType = 0"
definition DeregisterRequestType :: byte where "DeregisterRequestType = 1"
definition KVSRequestType :: byte where "KVSRequestType = 2"
definition SessionRequestType :: byte where "SessionRequestType = 3"
definition ACLRequestType :: byte where "ACLRequestType = 4"
definition TombstoneRequestType :: byte where "TombstoneRequestType = 5"
definition IgnoreUnknownTypeFlag :: byte where "IgnoreUnknownTypeFlag = 128"

definition recognized :: "byte \<Rightarrow> bool" where
  "recognized t \<longleftrightarrow>
     t = RegisterRequestType \<or> t = DeregisterRequestType \<or> t = KVSRequestType \<or>
     t = SessionRequestType \<or> t = ACLRequestType \<or> t = TombstoneRequestType"

definition structs_KVSSet :: string where "structs_KVSSet = ''set''"
definition structs_KVSDelete :: string where "structs_KVSDelete = ''delete''"
definition structs_KVSDeleteCAS :: string where "structs_KVSDeleteCAS = ''delete-cas''"
definition structs_KVSDeleteTree :: string where "structs_KVSDeleteTree = ''delete-tree''"
definition structs_KVSCAS :: string where "structs_KVSCAS = ''cas''"
definition structs_KVSLock :: string where "structs_KVSLock = ''lock''"
definition structs_KVSUnlock :: string where "structs_KVSUnlock = ''unlock''"
definition structs_SessionCreate :: string where "structs_SessionCreate = ''create''"
definition structs_SessionDestroy :: string where "structs_SessionDestroy = ''destroy''"
definition structs_ACLSet :: string where "structs_ACLSet = ''set''"
definition structs_ACLForceSet :: string where "structs_ACLForceSet = ''force-set''"
definition structs_ACLDelete :: string where "structs_ACLDelete = ''delete''"
definition structs_TombstoneReap :: string where "structs_TombstoneReap = ''reap''"

definition HealthPassing :: string where "HealthPassing = ''passing''"
definition HealthCritical :: string where "HealthCritical = ''critical''"
definition SessionKeysRelease :: string where "SessionKeysRelease = ''release''"
definition SessionKeysDelete :: string where "SessionKeysDelete = ''delete''"

section \<open>Errors, results and effects of the state machine\<close>

datatype error =
    ErrMissingNode
  | ErrMissingService
  | ErrMissingSessionID
  | ErrMissingACLID
  | ErrInvalidSessionBehavior string
  | ErrMissingCheck string
  | ErrCheckCritical string
  | ErrMissingSession
  | ErrInvalidSession string
  | ErrInvalidKVSOperation string
  | ErrInvalidSessionOperation string
  | ErrInvalidACLOperation string
  | ErrInvalidTombstoneOperation string
  | ErrUnrecognizedMsgType byte
  | ErrDecode
  | ErrRead
  | ErrStore string

text \<open>
  \<^verbatim>\<open>Apply\<close> returns an \<^verbatim>\<open>interface{}\<close>: nil, a bool, a string or an error. A
  \<^verbatim>\<open>panic\<close> is an outcome of its own.
\<close>

datatype apply_result = RNil | RBool bool | RString string | RError error

datatype panic =
    PanicIndexOutOfRange
  | PanicFailedToApply "byte list"
  | PanicFailedToDecode error

datatype outcome = Return apply_result | Panic panic

datatype log_line =
    WarnIgnoringUnknownMessageType byte
  | InfoEnsureRegistrationFailed error
  | InfoDeleteNodeServiceFailed error
  | InfoDeleteNodeCheckFailed error
  | InfoDeleteNodeFailed error
  | WarnInvalidKVSOperation string
  | WarnInvalidSessionOperation string
  | WarnInvalidACLOperation string
  | WarnInvalidTombstoneOperation string

record raft_Log =
  Index :: uint64
  Data :: "byte list"

text \<open>
  \<^verbatim>\<open>consulFSM\<close>: the state store the machine drives, and the lines its logger has
  written. The store is a pointer that \<^verbatim>\<open>Restore\<close> replaces; the model passes the
  machine through every call and returns it updated.
\<close>

record 's consulFSM =
  logger :: "log_line list"
  state :: 's

definition Printf :: "log_line \<Rightarrow> 's consulFSM \<Rightarrow> 's consulFSM" where
  "Printf l c = c\<lparr>logger := logger c @ [l]\<rparr>"

text \<open>
  The state store (package \<^verbatim>\<open>state\<close>) is a collaborator of \<^verbatim>\<open>fsm.go\<close>: the machine
  only calls its methods. The methods are the fields of a record, so that everything
  proved of the machine holds for any store. A method that fails returns \<open>Inl\<close> of the
  error and no store: the transaction is aborted. \<^verbatim>\<open>SessionCreate\<close> and
  \<^verbatim>\<open>ACLSet\<close> receive a pointer to the request's struct, which the machine reads
  after the call, so they return the struct as well.
\<close>

record 's StateStore =
  ss_NewStateStore :: "error + 's"
  ss_EnsureRegistration :: "uint64 \<Rightarrow> RegisterRequest \<Rightarrow> 's \<Rightarrow> error + 's"
  ss_DeleteService :: "uint64 \<Rightarrow> string \<Rightarrow> string \<Rightarrow> 's \<Rightarrow> error + 's"
  ss_DeleteCheck :: "uint64 \<Rightarrow> string \<Rightarrow> string \<Rightarrow> 's \<Rightarrow> error + 's"
  ss_DeleteNode :: "uint64 \<Rightarrow> string \<Rightarrow> 's \<Rightarrow> error + 's"
  ss_KVSSet :: "uint64 \<Rightarrow> DirEntry \<Rightarrow> 's \<Rightarrow> error + 's"
  ss_KVSDelete :: "uint64 \<Rightarrow> string \<Rightarrow> 's \<Rightarrow> error + 's"
  ss_KVSDeleteCAS :: "uint64 \<Rightarrow> uint64 \<Rightarrow> string \<Rightarrow> 's \<Rightarrow> error + bool \<times> 's"
  ss_KVSDeleteTree :: "uint64 \<Rightarrow> string \<Rightarrow> 's \<Rightarrow> error + 's"
  ss_KVSSetCAS :: "uint64 \<Rightarrow> DirEntry \<Rightarrow> 's \<Rightarrow> error + bool \<times> 's"
  ss_KVSLock :: "uint64 \<Rightarrow> DirEntry \<Rightarrow> 's \<Rightarrow> error + bool \<times> 's"
  ss_KVSUnlock :: "uint64 \<Rightarrow> DirEntry \<Rightarrow> 's \<Rightarrow> error + bool \<times> 's"
  ss_SessionCreate :: "uint64 \<Rightarrow> Session \<Rightarrow> 's \<Rightarrow> error + Session \<times> 's"
  ss_SessionDestroy :: "uint64 \<Rightarrow> string \<Rightarrow> 's \<Rightarrow> error + 's"
  ss_ACLSet :: "uint64 \<Rightarrow> ACL \<Rightarrow> 's \<Rightarrow> error + ACL \<times> 's"
  ss_ACLDelete :: "uint64 \<Rightarrow> string \<Rightarrow> 's \<Rightarrow> error + 's"
  ss_ReapTombstones :: "uint64 \<Rightarrow> 's \<Rightarrow> error + 's"
  ss_KVSRestore :: "DirEntry \<Rightarrow> 's \<Rightarrow> error + 's"
  ss_SessionRestore :: "Session \<Rightarrow> 's \<Rightarrow> error + 's"
  ss_ACLRestore :: "ACL \<Rightarrow> 's \<Rightarrow> error + 's"
  ss_TombstoneRestore :: "Tombstone \<Rightarrow> 's \<Rightarrow> error + 's"
  ss_LastIndex :: "'s \<Rightarrow> uint64"
  ss_NodeDump :: "'s \<Rightarrow> error + Node list"
  ss_ServiceDump :: "'s \<Rightarrow> string \<Rightarrow> error + NodeService list"
  ss_CheckDump :: "'s \<Rightarrow> string \<Rightarrow> error + HealthCheck list"
  ss_SessionDump :: "'s \<Rightarrow> error + Session list"
  ss_ACLDump :: "'s \<Rightarrow> error + ACL list"
  ss_KVSDump :: "'s \<Rightarrow> error + DirEntry list"
  ss_TombstoneDump :: "'s \<Rightarrow> error + Tombstone list"

text \<open>
  \<^verbatim>\<open>structs.Decode\<close> (the msgpack codec, an external library) turns the bytes after
  the type byte into a request, or fails.
\<close>

record codec =
  decode_RegisterRequest :: "byte list \<Rightarrow> error + RegisterRequest"
  decode_DeregisterRequest :: "byte list \<Rightarrow> error + DeregisterRequest"
  decode_KVSRequest :: "byte list \<Rightarrow> error + KVSRequest"
  decode_SessionRequest :: "byte list \<Rightarrow> error + SessionRequest"
  decode_ACLRequest :: "byte list \<Rightarrow> error + ACLRequest"
  decode_TombstoneRequest :: "byte list \<Rightarrow> error + TombstoneRequest"

section \<open>The state machine: Apply and its arms\<close>

definition applyRegister ::
  "'s StateStore \<Rightarrow> 's consulFSM \<Rightarrow> RegisterRequest \<Rightarrow> uint64 \<Rightarrow> outcome \<times> 's consulFSM" where
  "applyRegister ss c req index =
     (case ss_EnsureRegistration ss index req (state c) of
        Inl err \<Rightarrow> (Return (RError err), Printf (InfoEnsureRegistrationFailed err) c)
      | Inr s' \<Rightarrow> (Return RNil, c\<lparr>state := s'\<rparr>))"

definition decodeRegister ::
  "'s StateStore \<Rightarrow> codec \<Rightarrow> 's consulFSM \<Rightarrow> byte list \<Rightarrow> uint64 \<Rightarrow> outcome \<times> 's consulFSM" where
  "decodeRegister ss cd c buf index =
     (case decode_RegisterRequest cd buf of
        Inl err \<Rightarrow> (Panic (PanicFailedToDecode err), c)
      | Inr req \<Rightarrow> applyRegister ss c req index)"

definition applyDeregister ::
  "'s StateStore \<Rightarrow> codec \<Rightarrow> 's consulFSM \<Rightarrow> byte list \<Rightarrow> uint64 \<Rightarrow> outcome \<times> 's consulFSM" where
  "applyDeregister ss cd c buf index =
     (case decode_DeregisterRequest cd buf of
        Inl err \<Rightarrow> (Panic (PanicFailedToDecode err), c)
      | Inr req \<Rightarrow>
          if DeregisterRequest.ServiceID req \<noteq> [] then
            (case ss_DeleteService ss index (DeregisterRequest.Node req)
                    (DeregisterRequest.ServiceID req) (state c) of
               Inl err \<Rightarrow> (Return (RError err), Printf (InfoDeleteNodeServiceFailed err) c)
             | Inr s' \<Rightarrow> (Return RNil, c\<lparr>state := s'\<rparr>))
          else if DeregisterRequest.CheckID req \<noteq> [] then
            (case ss_DeleteCheck ss index (DeregisterRequest.Node req)
                    (DeregisterRequest.CheckID req) (state c) of
               Inl err \<Rightarrow> (Return (RError err), Printf (InfoDeleteNodeCheckFailed err) c)
             | Inr s' \<Rightarrow> (Return RNil, c\<lparr>state := s'\<rparr>))
          else
            (case ss_DeleteNode ss index (DeregisterRequest.Node req) (state c) of
               Inl err \<Rightarrow> (Return (RError err), Printf (InfoDeleteNodeFailed err) c)
             | Inr s' \<Rightarrow> (Return RNil, c\<lparr>state := s'\<rparr>)))"

text \<open>The three shapes in which an arm hands a store result back to the log caller.\<close>

definition return_err :: "'s consulFSM \<Rightarrow> error + 's \<Rightarrow> outcome \<times> 's consulFSM" where
  "return_err c r =
     (case r of Inl err \<Rightarrow> (Return (RError err), c) | Inr s' \<Rightarrow> (Return RNil, c\<lparr>state := s'\<rparr>))"

definition return_act :: "'s consulFSM \<Rightarrow> error + bool \<times> 's \<Rightarrow> outcome \<times> 's consulFSM" where
  "return_act c r =
     (case r of
        Inl err \<Rightarrow> (Return (RError err), c)
      | Inr (act, s') \<Rightarrow> (Return (RBool act), c\<lparr>state := s'\<rparr>))"

definition applyKVSOperation ::
  "'s StateStore \<Rightarrow> codec \<Rightarrow> 's consulFSM \<Rightarrow> byte list \<Rightarrow> uint64 \<Rightarrow> outcome \<times> 's consulFSM" where
  "applyKVSOperation ss cd c buf index =
     (case decode_KVSRequest cd buf of
        Inl err \<Rightarrow> (Panic (PanicFailedToDecode err), c)
      | Inr req \<Rightarrow>
          if KVSRequest.Op req = structs_KVSSet then
            return_err c (ss_KVSSet ss index (DirEnt req) (state c))
          else if KVSRequest.Op req = structs_KVSDelete then
            return_err c (ss_KVSDelete ss index (DirEntry.Key (DirEnt req)) (state c))
          else if KVSRequest.Op req = structs_KVSDeleteCAS then
            return_act c (ss_KVSDeleteCAS ss index (ModifyIndex (DirEnt req))
                            (DirEntry.Key (DirEnt req)) (state c))
          else if KVSRequest.Op req = structs_KVSDeleteTree then
            return_err c (ss_KVSDeleteTree ss index (DirEntry.Key (DirEnt req)) (state c))
          else if KVSRequest.Op req = structs_KVSCAS then
            return_act c (ss_KVSSetCAS ss index (DirEnt req) (state c))
          else if KVSRequest.Op req = structs_KVSLock then
            return_act c (ss_KVSLock ss index (DirEnt req) (state c))
          else if KVSRequest.Op req = structs_KVSUnlock then
            return_act c (ss_KVSUnlock ss index (DirEnt req) (state c))
          else
            (Return (RError (ErrInvalidKVSOperation (KVSRequest.Op req))),
             Printf (WarnInvalidKVSOperation (KVSRequest.Op req)) c))"

definition applySessionOperation ::
  "'s StateStore \<Rightarrow> codec \<Rightarrow> 's consulFSM \<Rightarrow> byte list \<Rightarrow> uint64 \<Rightarrow> outcome \<times> 's consulFSM" where
  "applySessionOperation ss cd c buf index =
     (case decode_SessionRequest cd buf of
        Inl err \<Rightarrow> (Panic (PanicFailedToDecode err), c)
      | Inr req \<Rightarrow>
          if SessionRequest.Op req = structs_SessionCreate then
            (case ss_SessionCreate ss index (SessionRequest.Session req) (state c) of
               Inl err \<Rightarrow> (Return (RError err), c)
             | Inr (sess, s') \<Rightarrow> (Return (RString (Session.ID sess)), c\<lparr>state := s'\<rparr>))
          else if SessionRequest.Op req = structs_SessionDestroy then
            return_err c (ss_SessionDestroy ss index (Session.ID (SessionRequest.Session req))
                            (state c))
          else
            (Return (RError (ErrInvalidSessionOperation (SessionRequest.Op req))),
             Printf (WarnInvalidSessionOperation (SessionRequest.Op req)) c))"

definition applyACLOperation ::
  "'s StateStore \<Rightarrow> codec \<Rightarrow> 's consulFSM \<Rightarrow> byte list \<Rightarrow> uint64 \<Rightarrow> outcome \<times> 's consulFSM" where
  "applyACLOperation ss cd c buf index =
     (case decode_ACLRequest cd buf of
        Inl err \<Rightarrow> (Panic (PanicFailedToDecode err), c)
      | Inr req \<Rightarrow>
          if ACLRequest.Op req = structs_ACLForceSet \<or> ACLRequest.Op req = structs_ACLSet then
            (case ss_ACLSet ss index (ACLRequest.ACL req) (state c) of
               Inl err \<Rightarrow> (Return (RError err), c)
             | Inr (acl, s') \<Rightarrow> (Return (RString (ACL.ID acl)), c\<lparr>state := s'\<rparr>))
          else if ACLRequest.Op req = structs_ACLDelete then
            return_err c (ss_ACLDelete ss index (ACL.ID (ACLRequest.ACL req)) (state c))
          else
            (Return (RError (ErrInvalidACLOperation (ACLRequest.Op req))),
             Printf (WarnInvalidACLOperation (ACLRequest.Op req)) c))"

definition applyTombstoneOperation ::
  "'s StateStore \<Rightarrow> codec \<Rightarrow> 's consulFSM \<Rightarrow> byte list \<Rightarrow> uint64 \<Rightarrow> outcome \<times> 's consulFSM" where
  "applyTombstoneOperation ss cd c buf index =
     (case decode_TombstoneRequest cd buf of
        Inl err \<Rightarrow> (Panic (PanicFailedToDecode err), c)
      | Inr req \<Rightarrow>
          if TombstoneRequest.Op req = structs_TombstoneReap then
            return_err c (ss_ReapTombstones ss (ReapIndex req) (state c))
          else
            (Return (RError (ErrInvalidTombstoneOperation (TombstoneRequest.Op req))),
             Printf (WarnInvalidTombstoneOperation (TombstoneRequest.Op req)) c))"


text \<open>
  \<^verbatim>\<open>Apply\<close>: \<^verbatim>\<open>buf[0]\<close> is the message type (reading it from an empty buffer
  panics); the ignore-if-unknown flag is tested and masked off, then the type selects
  the arm, which receives \<^verbatim>\<open>buf[1:]\<close> and the log's index.
\<close>

definition Apply ::
  "'s StateStore \<Rightarrow> codec \<Rightarrow> 's consulFSM \<Rightarrow> raft_Log \<Rightarrow> outcome \<times> 's consulFSM" where
  "Apply ss cd c log =
     (case Data log of
        [] \<Rightarrow> (Panic PanicIndexOutOfRange, c)
      | b # rest \<Rightarrow>
          let ignoreUnknown = (b AND IgnoreUnknownTypeFlag = IgnoreUnknownTypeFlag);
              msgType = (if ignoreUnknown then b AND NOT IgnoreUnknownTypeFlag else b)
          in
            if msgType = RegisterRequestType then decodeRegister ss cd c rest (Index log)
            else if msgType = DeregisterRequestType then applyDeregister ss cd c rest (Index log)
            else if msgType = KVSRequestType then applyKVSOperation ss cd c rest (Index log)
            else if msgType = SessionRequestType then applySessionOperation ss cd c rest (Index log)
            else if msgType = ACLRequestType then applyACLOperation ss cd c rest (Index log)
            else if msgType = TombstoneRequestType then
              applyTombstoneOperation ss cd c rest (Index log)
            else if ignoreUnknown then
              (Return RNil, Printf (WarnIgnoringUnknownMessageType msgType) c)
            else (Panic (PanicFailedToApply (Data log)), c))"

section \<open>Snapshots: Persist and Restore\<close>

text \<open>
  A snapshot stream is the header followed by frames, each a type byte and an encoded
  record. The msgpack encoder and decoder are an external library: the model keeps a
  frame's record as the value that was encoded, decoding gives it back when it is
  decoded as the type it was encoded from and fails otherwise, and \<open>PUndecodable\<close>
  stands for bytes no decoder accepts. A read of the type byte ends the loop at end of
  stream (the end of the list) and fails on any other read error.
\<close>

record snapshotHeader =
  LastIndex :: uint64

datatype payload =
    PRegisterRequest RegisterRequest
  | PDirEntry DirEntry
  | PSession Session
  | PACL ACL
  | PUndecodable

datatype frame = Frame byte payload | ReadFailure error

record snapshot_stream =
  stream_header :: "error + snapshotHeader"
  stream_frames :: "frame list"

fun decode_as_RegisterRequest :: "payload \<Rightarrow> error + RegisterRequest" where
  "decode_as_RegisterRequest (PRegisterRequest r) = Inr r"
| "decode_as_RegisterRequest _ = Inl ErrDecode"

fun decode_as_DirEntry :: "payload \<Rightarrow> error + DirEntry" where
  "decode_as_DirEntry (PDirEntry e) = Inr e"
| "decode_as_DirEntry _ = Inl ErrDecode"

fun decode_as_Session :: "payload \<Rightarrow> error + Session" where
  "decode_as_Session (PSession s) = Inr s"
| "decode_as_Session _ = Inl ErrDecode"

fun decode_as_ACL :: "payload \<Rightarrow> error + ACL" where
  "decode_as_ACL (PACL a) = Inr a"
| "decode_as_ACL _ = Inl ErrDecode"

text \<open>
  One turn of the loop of \<^verbatim>\<open>Restore\<close>, after the type byte has been read: the
  record is decoded as the type the byte names and handed to the store. The result of
  \<^verbatim>\<open>applyRegister\<close> is dropped, as in the source.
\<close>

definition Restore_record ::
  "'s StateStore \<Rightarrow> snapshotHeader \<Rightarrow> byte \<Rightarrow> payload \<Rightarrow> 's consulFSM \<Rightarrow> error + 's consulFSM" where
  "Restore_record ss header t p c =
     (if t = RegisterRequestType then
        (case decode_as_RegisterRequest p of
           Inl err \<Rightarrow> Inl err
         | Inr req \<Rightarrow> Inr (snd (applyRegister ss c req (LastIndex header))))
      else if t = KVSRequestType then
        (case decode_as_DirEntry p of
           Inl err \<Rightarrow> Inl err
         | Inr req \<Rightarrow>
             (case ss_KVSRestore ss req (state c) of
                Inl err \<Rightarrow> Inl err
              | Inr s' \<Rightarrow> Inr (c\<lparr>state := s'\<rparr>)))
      else if t = SessionRequestType then
        (case decode_as_Session p of
           Inl err \<Rightarrow> Inl err
         | Inr req \<Rightarrow>
             (case ss_SessionRestore ss req (state c) of
                Inl err \<Rightarrow> Inl err
              | Inr s' \<Rightarrow> Inr (c\<lparr>state := s'\<rparr>)))
      else if t = ACLRequestType then
        (case decode_as_ACL p of
           Inl err \<Rightarrow> Inl err
         | Inr req \<Rightarrow>
             (case ss_ACLRestore ss req (state c) of
                Inl err \<Rightarrow> Inl err
              | Inr s' \<Rightarrow> Inr (c\<lparr>state := s'\<rparr>)))
      else if t = TombstoneRequestType then
        (case decode_as_DirEntry p of
           Inl err \<Rightarrow> Inl err
         | Inr req \<Rightarrow>
             (case ss_TombstoneRestore ss
                     \<lparr>Tombstone.Key = DirEntry.Key req, Tombstone.Index = ModifyIndex req\<rparr> (state c) of
                Inl err \<Rightarrow> Inl err
              | Inr s' \<Rightarrow> Inr (c\<lparr>state := s'\<rparr>)))
      else Inl (ErrUnrecognizedMsgType t))"

text \<open>
  The loop itself. The machine's store is the new store from the first record on, so
  the loop returns the machine as it stands when an error ends it.
\<close>

fun Restore_loop ::
  "'s StateStore \<Rightarrow> snapshotHeader \<Rightarrow> frame list \<Rightarrow> 's consulFSM \<Rightarrow> error option \<times> 's consulFSM" where
  "Restore_loop ss header [] c = (None, c)"
| "Restore_loop ss header (ReadFailure err # fs) c = (Some err, c)"
| "Restore_loop ss header (Frame t p # fs) c =
     (case Restore_record ss header t p c of
        Inl err \<Rightarrow> (Some err, c)
      | Inr c' \<Rightarrow> Restore_loop ss header fs c')"

definition Restore ::
  "'s StateStore \<Rightarrow> 's consulFSM \<Rightarrow> snapshot_stream \<Rightarrow> error option \<times> 's consulFSM" where
  "Restore ss c old =
     (case ss_NewStateStore ss of
        Inl err \<Rightarrow> (Some err, c)
      | Inr st \<Rightarrow>
          (case stream_header old of
             Inl err \<Rightarrow> (Some err, c\<lparr>state := st\<rparr>)
           | Inr header \<Rightarrow> Restore_loop ss header (stream_frames old) (c\<lparr>state := st\<rparr>)))"

text \<open>
  \<^verbatim>\<open>Snapshot\<close> hands out a read-only view of the store as it is now.
\<close>

definition Snapshot :: "'s consulFSM \<Rightarrow> 's" where
  "Snapshot c = state c"

text \<open>
  The sink of \<^verbatim>\<open>Persist\<close> (a \<^verbatim>\<open>raft.SnapshotSink\<close>) receives, in order, what
  \<^verbatim>\<open>encoder.Encode\<close> and \<^verbatim>\<open>sink.Write\<close> hand it: the header, and for every record
  a type byte and the encoded record. Both calls can fail. Whether they do is the affair
  of the sink and of the encoder, which are not part of \<^verbatim>\<open>fsm.go\<close>: \<open>sink_io\<close> gives
  the error of a call, if any, from what the sink holds so far and what it is handed.
  \<^verbatim>\<open>Persist\<close> drops the result of \<^verbatim>\<open>sink.Write\<close> and returns the error of
  \<^verbatim>\<open>encoder.Encode\<close>; a call that fails leaves the sink as it was.
\<close>

datatype item = IHeader snapshotHeader | IType byte | IRecord payload

record SnapshotSink =
  sink_items :: "item list"
  sink_cancel :: bool

record sink_io =
  write_error :: "SnapshotSink \<Rightarrow> byte \<Rightarrow> error option"
  encode_error :: "SnapshotSink \<Rightarrow> item \<Rightarrow> error option"

definition sink_Write :: "sink_io \<Rightarrow> byte \<Rightarrow> SnapshotSink \<Rightarrow> SnapshotSink" where
  "sink_Write io t sink =
     (case write_error io sink t of
        Some err \<Rightarrow> sink
      | None \<Rightarrow> sink\<lparr>sink_items := sink_items sink @ [IType t]\<rparr>)"

definition Encode :: "sink_io \<Rightarrow> item \<Rightarrow> SnapshotSink \<Rightarrow> error + SnapshotSink" where
  "Encode io x sink =
     (case encode_error io sink x of
        Some err \<Rightarrow> Inl err
      | None \<Rightarrow> Inr (sink\<lparr>sink_items := sink_items sink @ [x]\<rparr>))"

definition sink_Cancel :: "SnapshotSink \<Rightarrow> SnapshotSink" where
  "sink_Cancel sink = sink\<lparr>sink_cancel := True\<rparr>"

text \<open>
  Every loop of the \<^verbatim>\<open>persist\<close> functions has the same body: write the type byte,
  encode the record, return the error of the encoding. \<open>persistRecords\<close> is that loop
  over the records of one type.
\<close>

fun persistRecords ::
  "sink_io \<Rightarrow> byte \<Rightarrow> payload list \<Rightarrow> SnapshotSink \<Rightarrow> error option \<times> SnapshotSink" where
  "persistRecords io t [] sink = (None, sink)"
| "persistRecords io t (p # ps) sink =
     (let sink1 = sink_Write io t sink
      in case Encode io (IRecord p) sink1 of
           Inl err \<Rightarrow> (Some err, sink1)
         | Inr sink2 \<Rightarrow> persistRecords io t ps sink2)"

text \<open>
  \<^verbatim>\<open>persistNodes\<close>: for every node of the dump, a registration of the node alone,
  then one with each of its services, then (the service cleared) one with each of its
  checks.
\<close>

fun persistNodes_loop ::
  "'s StateStore \<Rightarrow> sink_io \<Rightarrow> 's \<Rightarrow> Node list \<Rightarrow> SnapshotSink \<Rightarrow> error option \<times> SnapshotSink" where
  "persistNodes_loop ss io s [] sink = (None, sink)"
| "persistNodes_loop ss io s (n # nodes) sink =
     (let req = \<lparr>RegisterRequest.Datacenter = [], RegisterRequest.Node = Node.Node n,
                 RegisterRequest.Address = Node.Address n, RegisterRequest.Service = None,
                 Check = None, RegisterRequest.Checks = []\<rparr>;
          sink1 = sink_Write io RegisterRequestType sink
      in case Encode io (IRecord (PRegisterRequest req)) sink1 of
           Inl err \<Rightarrow> (Some err, sink1)
         | Inr sink2 \<Rightarrow>
        (case ss_ServiceDump ss s (Node.Node n) of
           Inl err \<Rightarrow> (Some err, sink2)
         | Inr services \<Rightarrow>
        (case persistRecords io RegisterRequestType
                (map (\<lambda>srv. PRegisterRequest (req\<lparr>RegisterRequest.Service := Some srv\<rparr>))
                   services) sink2 of
           (Some err, sink3) \<Rightarrow> (Some err, sink3)
         | (None, sink3) \<Rightarrow>
        (case ss_CheckDump ss s (Node.Node n) of
           Inl err \<Rightarrow> (Some err, sink3)
         | Inr checks \<Rightarrow>
        (case persistRecords io RegisterRequestType
                (map (\<lambda>check. PRegisterRequest
                        (req\<lparr>RegisterRequest.Service := None, Check := Some check\<rparr>))
                   checks) sink3 of
           (Some err, sink4) \<Rightarrow> (Some err, sink4)
         | (None, sink4) \<Rightarrow> persistNodes_loop ss io s nodes sink4)))))"

definition persistNodes ::
  "'s StateStore \<Rightarrow> sink_io \<Rightarrow> 's \<Rightarrow> SnapshotSink \<Rightarrow> error option \<times> SnapshotSink" where
  "persistNodes ss io s sink =
     (case ss_NodeDump ss s of
        Inl err \<Rightarrow> (Some err, sink)
      | Inr nodes \<Rightarrow> persistNodes_loop ss io s nodes sink)"

definition persistSessions ::
  "'s StateStore \<Rightarrow> sink_io \<Rightarrow> 's \<Rightarrow> SnapshotSink \<Rightarrow> error option \<times> SnapshotSink" where
  "persistSessions ss io s sink =
     (case ss_SessionDump ss s of
        Inl err \<Rightarrow> (Some err, sink)
      | Inr sessions \<Rightarrow> persistRecords io SessionRequestType (map PSession sessions) sink)"

definition persistACLs ::
  "'s StateStore \<Rightarrow> sink_io \<Rightarrow> 's \<Rightarrow> SnapshotSink \<Rightarrow> error option \<times> SnapshotSink" where
  "persistACLs ss io s sink =
     (case ss_ACLDump ss s of
        Inl err \<Rightarrow> (Some err, sink)
      | Inr acls \<Rightarrow> persistRecords io ACLRequestType (map PACL acls) sink)"

definition persistKV ::
  "'s StateStore \<Rightarrow> sink_io \<Rightarrow> 's \<Rightarrow> SnapshotSink \<Rightarrow> error option \<times> SnapshotSink" where
  "persistKV ss io s sink =
     (case ss_KVSDump ss s of
        Inl err \<Rightarrow> (Some err, sink)
      | Inr entries \<Rightarrow> persistRecords io KVSRequestType (map PDirEntry entries) sink)"

text \<open>
  A tombstone is written as a K/V entry that holds its key and, in \<open>ModifyIndex\<close>, its
  index; every other field has Go's zero value.
\<close>

definition fake_DirEntry :: "Tombstone \<Rightarrow> DirEntry" where
  "fake_DirEntry s =
     \<lparr>CreateIndex = 0, ModifyIndex = Tombstone.Index s, LockIndex = 0,
      DirEntry.Key = Tombstone.Key s, Flags = 0, Value = [], DirEntry.Session = []\<rparr>"

definition persistTombstones ::
  "'s StateStore \<Rightarrow> sink_io \<Rightarrow> 's \<Rightarrow> SnapshotSink \<Rightarrow> error option \<times> SnapshotSink" where
  "persistTombstones ss io s sink =
     (case ss_TombstoneDump ss s of
        Inl err \<Rightarrow> (Some err, sink)
      | Inr stones \<Rightarrow>
          persistRecords io TombstoneRequestType (map (\<lambda>x. PDirEntry (fake_DirEntry x)) stones)
            sink)"

text \<open>
  \<^verbatim>\<open>Persist\<close> encodes the header and then persists the nodes, the sessions, the ACLs,
  the K/V entries and the tombstones; at the first error it cancels the sink and
  returns the error.
\<close>

definition Persist ::
  "'s StateStore \<Rightarrow> sink_io \<Rightarrow> 's \<Rightarrow> SnapshotSink \<Rightarrow> error option \<times> SnapshotSink" where
  "Persist ss io s sink =
     (case Encode io (IHeader \<lparr>LastIndex = ss_LastIndex ss s\<rparr>) sink of
        Inl err \<Rightarrow> (Some err, sink_Cancel sink)
      | Inr sink0 \<Rightarrow>
        (case persistNodes ss io s sink0 of
           (Some err, sink1) \<Rightarrow> (Some err, sink_Cancel sink1)
         | (None, sink1) \<Rightarrow>
        (case persistSessions ss io s sink1 of
           (Some err, sink2) \<Rightarrow> (Some err, sink_Cancel sink2)
         | (None, sink2) \<Rightarrow>
        (case persistACLs ss io s sink2 of
           (Some err, sink3) \<Rightarrow> (Some err, sink_Cancel sink3)
         | (None, sink3) \<Rightarrow>
        (case persistKV ss io s sink3 of
           (Some err, sink4) \<Rightarrow> (Some err, sink_Cancel sink4)
         | (None, sink4) \<Rightarrow>
        (case persistTombstones ss io s sink4 of
           (Some err, sink5) \<Rightarrow> (Some err, sink_Cancel sink5)
         | (None, sink5) \<Rightarrow> (None, sink5)))))))"

text \<open>
  Reading back what a sink holds, as the stream that a later \<^verbatim>\<open>Restore\<close> is given: the
  header, and a record for every type byte that an encoded record follows. Anything
  else in the sink is a record that does not decode or a read that fails.
\<close>

fun frames_of :: "item list \<Rightarrow> frame list" where
  "frames_of [] = []"
| "frames_of (IType t # IRecord p # rest) = Frame t p # frames_of rest"
| "frames_of (IType t # rest) = [Frame t PUndecodable]"
| "frames_of (x # rest) = [ReadFailure ErrRead]"

definition sink_stream :: "SnapshotSink \<Rightarrow> snapshot_stream" where
  "sink_stream sink =
     (case sink_items sink of
        IHeader h # rest \<Rightarrow> \<lparr>stream_header = Inr h, stream_frames = frames_of rest\<rparr>
      | _ \<Rightarrow> \<lparr>stream_header = Inl ErrDecode, stream_frames = []\<rparr>)"

definition empty_sink :: SnapshotSink where
  "empty_sink = \<lparr>sink_items = [], sink_cancel = False\<rparr>"

text \<open>
  A sink and an encoder that never fail, as the \<^verbatim>\<open>MockSink\<close> of the tests (a
  \<^verbatim>\<open>bytes.Buffer\<close>) does not; and what it is for both never to fail.
\<close>

definition buffer_io :: sink_io where
  "buffer_io = \<lparr>write_error = (\<lambda>sink t. None), encode_error = (\<lambda>sink x. None)\<rparr>"

definition reliable :: "sink_io \<Rightarrow> bool" where
  "reliable io \<longleftrightarrow>
     (\<forall>sink t. write_error io sink t = None) \<and> (\<forall>sink x. encode_error io sink x = None)"

section \<open>The state store\<close>

text \<open>
  Modelled from the spec: the state store (package \<^verbatim>\<open>state\<close>, the methods that
  \<^verbatim>\<open>fsm.go\<close> calls on \<^verbatim>\<open>c.state\<close>) is not among the source files; only its tests
  are (\<^verbatim>\<open>TestStateStore_*\<close>). The definitions of this section follow sections 3, 4
  and 7 of the spec. Where a test of the source pins a result that the spec's words
  leave open or state differently (the result index of a filtered or joined query), the
  definition follows the test, and its text says so.

  A table is a list of rows in ascending key order, as the ordered iteration of the
  spec's section 4.1 returns them: \<open>tbl_first\<close> is the exact lookup, \<open>tbl_insert\<close>
  the upsert, \<open>tbl_delete\<close> the removal of a key.
\<close>

type_synonym ('k, 'v) table = "('k \<times> 'v) list"

definition tbl_first :: "('k, 'v) table \<Rightarrow> 'k \<Rightarrow> 'v option" where
  "tbl_first t k = map_of t k"

fun tbl_insert :: "'k::linorder \<Rightarrow> 'v \<Rightarrow> ('k, 'v) table \<Rightarrow> ('k, 'v) table" where
  "tbl_insert k v [] = [(k, v)]"
| "tbl_insert k v ((k', v') # t) =
     (if k < k' then (k, v) # (k', v') # t
      else if k = k' then (k, v) # t
      else (k', v') # tbl_insert k v t)"

definition tbl_delete :: "'k \<Rightarrow> ('k, 'v) table \<Rightarrow> ('k, 'v) table" where
  "tbl_delete k t = filter (\<lambda>row. fst row \<noteq> k) t"

definition tbl_rows :: "('k, 'v) table \<Rightarrow> 'v list" where
  "tbl_rows t = map snd t"

definition max_of :: "uint64 list \<Rightarrow> uint64" where
  "max_of xs = fold max xs 0"

fun HasPrefix :: "string \<Rightarrow> string \<Rightarrow> bool" where
  "HasPrefix s [] = True"
| "HasPrefix [] (p # ps) = False"
| "HasPrefix (c # s) (p # ps) = (c = p \<and> HasPrefix s ps)"

text \<open>
  Modelled from the spec: the store's tables (section 3): nodes by name, services and
  checks by (node, id), K/V entries and tombstones by key, sessions and ACLs by id, and
  the index table \<open>IndexRow\<close> from table name to the index of the last write. The
  helper relation \<open>session_checks\<close> is an access path to the sessions of a check; the
  model reads the same sessions from the session table.
\<close>

record StateStoreDB =
  nodes :: "(string, Node) table"
  services :: "(string \<times> string, NodeService) table"
  checks :: "(string \<times> string, HealthCheck) table"
  kvs :: "(string, DirEntry) table"
  tombstones :: "(string, Tombstone) table"
  sessions :: "(string, Session) table"
  acls :: "(string, ACL) table"
  index_table :: "(string, uint64) table"

definition NewStateStore :: StateStoreDB where
  "NewStateStore =
     \<lparr>nodes = [], services = [], checks = [], kvs = [], tombstones = [], sessions = [],
      acls = [], index_table = []\<rparr>"

text \<open>
  Modelled from the spec: the index table (section 4.2). Every write to a table
  writes the log index to the table's row; a restore raises the row to the restored
  record's index when that is larger (\<^verbatim>\<open>TestStateStore_indexUpdateMaxTxn\<close>);
  \<open>maxIndex\<close> is the largest row among the named tables
  (\<^verbatim>\<open>TestStateStore_maxIndex\<close>), and \<open>LastIndex\<close> the largest row of all.
\<close>

definition IndexRow :: "StateStoreDB \<Rightarrow> string \<Rightarrow> uint64" where
  "IndexRow s tbl = (case tbl_first (index_table s) tbl of None \<Rightarrow> 0 | Some i \<Rightarrow> i)"

definition indexUpdate :: "string \<Rightarrow> uint64 \<Rightarrow> StateStoreDB \<Rightarrow> StateStoreDB" where
  "indexUpdate tbl idx s = s\<lparr>index_table := tbl_insert tbl idx (index_table s)\<rparr>"

definition indexUpdateMax :: "string \<Rightarrow> uint64 \<Rightarrow> StateStoreDB \<Rightarrow> StateStoreDB" where
  "indexUpdateMax tbl idx s = (if IndexRow s tbl < idx then indexUpdate tbl idx s else s)"

definition maxIndex :: "StateStoreDB \<Rightarrow> string list \<Rightarrow> uint64" where
  "maxIndex s tbls = max_of (map (IndexRow s) tbls)"

definition StoreLastIndex :: "StateStoreDB \<Rightarrow> uint64" where
  "StoreLastIndex s = max_of (tbl_rows (index_table s))"

subsection \<open>Catalog\<close>

text \<open>
  Modelled from the spec: \<^verbatim>\<open>EnsureNode\<close>, \<^verbatim>\<open>EnsureService\<close>,
  \<^verbatim>\<open>EnsureCheck\<close> and \<^verbatim>\<open>EnsureRegistration\<close> (sections 3 and 4.3). An upsert
  keeps the \<open>CreateIndex\<close> of the row it replaces and sets \<open>ModifyIndex\<close> to the log
  index. A service needs its node; a check needs its node and, when it names a service,
  that service, whose name it then carries (\<^verbatim>\<open>TestStateStore_NodeInfo_NodeDump\<close>);
  an empty status becomes critical. A registration upserts the node, then the service,
  the check and each of the checks that the request holds, and fails as a whole when
  one of them fails.
\<close>

definition ensureNodeTxn :: "uint64 \<Rightarrow> Node \<Rightarrow> StateStoreDB \<Rightarrow> StateStoreDB" where
  "ensureNodeTxn idx node s =
     (let n = (case tbl_first (nodes s) (Node.Node node) of
                 Some existing \<Rightarrow> node\<lparr>CreateIndex := CreateIndex existing, ModifyIndex := idx\<rparr>
               | None \<Rightarrow> node\<lparr>CreateIndex := idx, ModifyIndex := idx\<rparr>)
      in indexUpdate ''nodes'' idx (s\<lparr>nodes := tbl_insert (Node.Node node) n (nodes s)\<rparr>))"

definition ensureServiceTxn ::
  "uint64 \<Rightarrow> string \<Rightarrow> NodeService \<Rightarrow> StateStoreDB \<Rightarrow> error + StateStoreDB" where
  "ensureServiceTxn idx node svc s =
     (case tbl_first (nodes s) node of
        None \<Rightarrow> Inl ErrMissingNode
      | Some n \<Rightarrow>
          (let entry = (case tbl_first (services s) (node, NodeService.ID svc) of
                          Some existing \<Rightarrow>
                            svc\<lparr>CreateIndex := CreateIndex existing, ModifyIndex := idx\<rparr>
                        | None \<Rightarrow> svc\<lparr>CreateIndex := idx, ModifyIndex := idx\<rparr>)
           in Inr (indexUpdate ''services'' idx
                    (s\<lparr>services := tbl_insert (node, NodeService.ID svc) entry (services s)\<rparr>))))"

definition ensureCheckTxn :: "uint64 \<Rightarrow> HealthCheck \<Rightarrow> StateStoreDB \<Rightarrow> error + StateStoreDB" where
  "ensureCheckTxn idx hc0 s =
     (let hc1 = (if Status hc0 = [] then hc0\<lparr>Status := HealthCritical\<rparr> else hc0);
          hc2 = (case tbl_first (checks s) (HealthCheck.Node hc1, HealthCheck.CheckID hc1) of
                   Some existing \<Rightarrow> hc1\<lparr>CreateIndex := CreateIndex existing, ModifyIndex := idx\<rparr>
                 | None \<Rightarrow> hc1\<lparr>CreateIndex := idx, ModifyIndex := idx\<rparr>)
      in case tbl_first (nodes s) (HealthCheck.Node hc2) of
           None \<Rightarrow> Inl ErrMissingNode
         | Some n \<Rightarrow>
             if HealthCheck.ServiceID hc2 \<noteq> [] then
               (case tbl_first (services s) (HealthCheck.Node hc2, HealthCheck.ServiceID hc2) of
                  None \<Rightarrow> Inl ErrMissingService
                | Some svc \<Rightarrow>
                    (let hc3 = hc2\<lparr>ServiceName := NodeService.Service svc\<rparr>
                     in Inr (indexUpdate ''checks'' idx
                          (s\<lparr>checks := tbl_insert (HealthCheck.Node hc3, HealthCheck.CheckID hc3)
                                          hc3 (checks s)\<rparr>))))
             else
               Inr (indexUpdate ''checks'' idx
                     (s\<lparr>checks := tbl_insert (HealthCheck.Node hc2, HealthCheck.CheckID hc2)
                                     hc2 (checks s)\<rparr>)))"

fun ensureChecksTxn :: "uint64 \<Rightarrow> HealthCheck list \<Rightarrow> StateStoreDB \<Rightarrow> error + StateStoreDB" where
  "ensureChecksTxn idx [] s = Inr s"
| "ensureChecksTxn idx (hc # hcs) s =
     (case ensureCheckTxn idx hc s of
        Inl err \<Rightarrow> Inl err
      | Inr s' \<Rightarrow> ensureChecksTxn idx hcs s')"

definition EnsureRegistration ::
  "uint64 \<Rightarrow> RegisterRequest \<Rightarrow> StateStoreDB \<Rightarrow> error + StateStoreDB" where
  "EnsureRegistration idx req s =
     (let s1 = ensureNodeTxn idx
                 \<lparr>CreateIndex = 0, ModifyIndex = 0, Node.Node = RegisterRequest.Node req,
                  Node.Address = RegisterRequest.Address req\<rparr> s
      in case (case RegisterRequest.Service req of
                 None \<Rightarrow> Inr s1
               | Some svc \<Rightarrow> ensureServiceTxn idx (RegisterRequest.Node req) svc s1) of
           Inl err \<Rightarrow> Inl err
         | Inr s2 \<Rightarrow>
             (case (case Check req of None \<Rightarrow> Inr s2 | Some hc \<Rightarrow> ensureCheckTxn idx hc s2) of
                Inl err \<Rightarrow> Inl err
              | Inr s3 \<Rightarrow> ensureChecksTxn idx (RegisterRequest.Checks req) s3))"

definition EnsureNode :: "uint64 \<Rightarrow> Node \<Rightarrow> StateStoreDB \<Rightarrow> error + StateStoreDB" where
  "EnsureNode idx node s = Inr (ensureNodeTxn idx node s)"

definition EnsureService ::
  "uint64 \<Rightarrow> string \<Rightarrow> NodeService \<Rightarrow> StateStoreDB \<Rightarrow> error + StateStoreDB" where
  "EnsureService idx node svc s = ensureServiceTxn idx node svc s"

definition EnsureCheck :: "uint64 \<Rightarrow> HealthCheck \<Rightarrow> StateStoreDB \<Rightarrow> error + StateStoreDB" where
  "EnsureCheck idx hc s = ensureCheckTxn idx hc s"

subsection \<open>K/V entries and tombstones\<close>

text \<open>
  Modelled from the spec: the write of a K/V entry and its removal (section 4.4).
  A set is an upsert that keeps \<open>CreateIndex\<close>, sets \<open>ModifyIndex\<close> to the log index
  and removes a tombstone of the key; a delete removes the entry and writes a tombstone
  at the log index; the delete of a key that has no entry changes nothing
  (\<^verbatim>\<open>TestStateStore_KVSDelete\<close>).
\<close>

definition kvsSetTxn :: "uint64 \<Rightarrow> DirEntry \<Rightarrow> StateStoreDB \<Rightarrow> StateStoreDB" where
  "kvsSetTxn idx entry s =
     (let e = (case tbl_first (kvs s) (DirEntry.Key entry) of
                 Some existing \<Rightarrow> entry\<lparr>CreateIndex := CreateIndex existing, ModifyIndex := idx\<rparr>
               | None \<Rightarrow> entry\<lparr>CreateIndex := idx, ModifyIndex := idx\<rparr>)
      in indexUpdate ''kvs'' idx
           (s\<lparr>kvs := tbl_insert (DirEntry.Key entry) e (kvs s),
              tombstones := tbl_delete (DirEntry.Key entry) (tombstones s)\<rparr>))"

definition kvsDeleteTxn :: "uint64 \<Rightarrow> string \<Rightarrow> StateStoreDB \<Rightarrow> StateStoreDB" where
  "kvsDeleteTxn idx key s =
     (case tbl_first (kvs s) key of
        None \<Rightarrow> s
      | Some e \<Rightarrow>
          indexUpdate ''kvs'' idx (indexUpdate ''tombstones'' idx
            (s\<lparr>kvs := tbl_delete key (kvs s),
               tombstones := tbl_insert key \<lparr>Tombstone.Key = key, Tombstone.Index = idx\<rparr>
                               (tombstones s)\<rparr>)))"

definition KVSSet :: "uint64 \<Rightarrow> DirEntry \<Rightarrow> StateStoreDB \<Rightarrow> error + StateStoreDB" where
  "KVSSet idx entry s = Inr (kvsSetTxn idx entry s)"

definition KVSDelete :: "uint64 \<Rightarrow> string \<Rightarrow> StateStoreDB \<Rightarrow> error + StateStoreDB" where
  "KVSDelete idx key s = Inr (kvsDeleteTxn idx key s)"

text \<open>
  Modelled from the spec: \<^verbatim>\<open>KVSDeleteTree\<close> (section 4.4) removes every entry whose
  key has the prefix, each with its tombstone; when nothing matches, neither a table
  nor an index row is written (\<^verbatim>\<open>TestStateStore_KVSDeleteTree\<close>).
\<close>

definition KVSDeleteTree :: "uint64 \<Rightarrow> string \<Rightarrow> StateStoreDB \<Rightarrow> error + StateStoreDB" where
  "KVSDeleteTree idx prefix s =
     Inr (fold (kvsDeleteTxn idx)
            (map fst (filter (\<lambda>row. HasPrefix (fst row) prefix) (kvs s))) s)"

text \<open>
  Modelled from the spec: \<^verbatim>\<open>KVSSetCAS\<close> (section 4.4) sets the entry if and only if
  either the request's \<open>ModifyIndex\<close> is 0 and the key has no entry, or the key has an
  entry whose \<open>ModifyIndex\<close> is the request's; otherwise it reports \<open>False\<close>, writes
  nothing and is no error (section 7, and the five cases of
  \<^verbatim>\<open>TestStateStore_KVSSetCAS\<close>).
\<close>

definition KVSSetCAS :: "uint64 \<Rightarrow> DirEntry \<Rightarrow> StateStoreDB \<Rightarrow> error + bool \<times> StateStoreDB" where
  "KVSSetCAS idx entry s =
     (case tbl_first (kvs s) (DirEntry.Key entry) of
        None \<Rightarrow>
          if ModifyIndex entry = 0 then Inr (True, kvsSetTxn idx entry s) else Inr (False, s)
      | Some existing \<Rightarrow>
          if ModifyIndex existing = ModifyIndex entry then Inr (True, kvsSetTxn idx entry s)
          else Inr (False, s))"

text \<open>
  Modelled from the spec: \<^verbatim>\<open>KVSDeleteCAS\<close> (section 4.4) succeeds when the key has
  no entry, and deletes and succeeds when the entry's \<open>ModifyIndex\<close> is the given one
  (\<^verbatim>\<open>TestStateStore_KVSDeleteCAS\<close>).
\<close>

definition KVSDeleteCAS ::
  "uint64 \<Rightarrow> uint64 \<Rightarrow> string \<Rightarrow> StateStoreDB \<Rightarrow> error + bool \<times> StateStoreDB" where
  "KVSDeleteCAS idx cidx key s =
     (case tbl_first (kvs s) key of
        None \<Rightarrow> Inr (True, s)
      | Some existing \<Rightarrow>
          if ModifyIndex existing = cidx then Inr (True, kvsDeleteTxn idx key s)
          else Inr (False, s))"

text \<open>
  Modelled from the spec: \<^verbatim>\<open>KVSLock\<close> and \<^verbatim>\<open>KVSUnlock\<close> (section 4.4, Locks).
  A lock needs a non-empty session that exists. On a key that is not held, or is held by
  the same session, the entry is written with the session as holder; \<open>LockIndex\<close> goes
  up by one when the holder is new (1 on a new key, \<^verbatim>\<open>TestFSM_KVSLock\<close>) and stays
  when the session already holds the key. On a key held by another session the lock
  reports \<open>False\<close> and writes nothing. An unlock by the holder, the session that the
  entry names, writes the entry with no holder and the same \<open>LockIndex\<close>; a request that
  does not come from the holder (another session, no session at all, a key that is not
  held or has no entry) reports \<open>False\<close> and writes nothing.
\<close>

definition KVSLock :: "uint64 \<Rightarrow> DirEntry \<Rightarrow> StateStoreDB \<Rightarrow> error + bool \<times> StateStoreDB" where
  "KVSLock idx entry s =
     (if DirEntry.Session entry = [] then Inl ErrMissingSession
      else case tbl_first (sessions s) (DirEntry.Session entry) of
        None \<Rightarrow> Inl (ErrInvalidSession (DirEntry.Session entry))
      | Some sess \<Rightarrow>
          (case tbl_first (kvs s) (DirEntry.Key entry) of
             None \<Rightarrow> Inr (True, kvsSetTxn idx (entry\<lparr>LockIndex := 1\<rparr>) s)
           | Some existing \<Rightarrow>
               if DirEntry.Session existing = DirEntry.Session entry then
                 Inr (True, kvsSetTxn idx (entry\<lparr>LockIndex := LockIndex existing\<rparr>) s)
               else if DirEntry.Session existing \<noteq> [] then Inr (False, s)
               else Inr (True, kvsSetTxn idx (entry\<lparr>LockIndex := LockIndex existing + 1\<rparr>) s)))"

definition KVSUnlock :: "uint64 \<Rightarrow> DirEntry \<Rightarrow> StateStoreDB \<Rightarrow> error + bool \<times> StateStoreDB" where
  "KVSUnlock idx entry s =
     (case tbl_first (kvs s) (DirEntry.Key entry) of
        None \<Rightarrow> Inr (False, s)
      | Some existing \<Rightarrow>
          if DirEntry.Session entry = [] \<or> DirEntry.Session existing \<noteq> DirEntry.Session entry
          then Inr (False, s)
          else Inr (True, kvsSetTxn idx
                 (entry\<lparr>DirEntry.Session := [], LockIndex := LockIndex existing\<rparr>) s))"

text \<open>
  Modelled from the spec: \<^verbatim>\<open>ReapTombstones\<close> (section 4.6) deletes every tombstone
  whose index is at most the given one. It receives no log index and writes no index
  row.
\<close>

definition ReapTombstones :: "uint64 \<Rightarrow> StateStoreDB \<Rightarrow> error + StateStoreDB" where
  "ReapTombstones ridx s =
     Inr (s\<lparr>tombstones := filter (\<lambda>row. \<not> Tombstone.Index (snd row) \<le> ridx) (tombstones s)\<rparr>)"

subsection \<open>Sessions\<close>

text \<open>
  Modelled from the spec: the destruction of a session (section 4.5) removes it and
  applies its behaviour to every K/V entry it holds: delete removes the entry as
  \<^verbatim>\<open>KVSDelete\<close> does, release (the default) writes the entry with no holder and the
  same \<open>LockIndex\<close>. The destruction of a session that does not exist changes nothing
  (\<^verbatim>\<open>TestStateStore_SessionDestroy\<close>).
\<close>

definition invalidateLock :: "uint64 \<Rightarrow> string \<Rightarrow> DirEntry \<Rightarrow> StateStoreDB \<Rightarrow> StateStoreDB" where
  "invalidateLock idx behavior e s =
     (if behavior = SessionKeysDelete then kvsDeleteTxn idx (DirEntry.Key e) s
      else kvsSetTxn idx (e\<lparr>DirEntry.Session := []\<rparr>) s)"

definition deleteSessionTxn :: "uint64 \<Rightarrow> string \<Rightarrow> StateStoreDB \<Rightarrow> StateStoreDB" where
  "deleteSessionTxn idx sessionID s =
     (case tbl_first (sessions s) sessionID of
        None \<Rightarrow> s
      | Some sess \<Rightarrow>
          (let s1 = indexUpdate ''sessions'' idx
                      (s\<lparr>sessions := tbl_delete sessionID (sessions s)\<rparr>);
               held = filter (\<lambda>e. DirEntry.Session e = sessionID) (tbl_rows (kvs s1))
           in fold (invalidateLock idx (Behavior sess)) held s1))"

definition SessionDestroy :: "uint64 \<Rightarrow> string \<Rightarrow> StateStoreDB \<Rightarrow> error + StateStoreDB" where
  "SessionDestroy idx sessionID s = Inr (deleteSessionTxn idx sessionID s)"

text \<open>
  Modelled from the spec: \<^verbatim>\<open>SessionCreate\<close> (section 3) fails on an empty id, on a
  behaviour that is neither empty nor release nor delete, on an unknown node, and on a
  check that is unknown or critical, in the order of
  \<^verbatim>\<open>TestStateStore_SessionCreate_GetSession\<close>; an empty behaviour becomes release.
\<close>

fun sessionChecksOk :: "StateStoreDB \<Rightarrow> string \<Rightarrow> string list \<Rightarrow> error option" where
  "sessionChecksOk s node [] = None"
| "sessionChecksOk s node (checkID # rest) =
     (case tbl_first (checks s) (node, checkID) of
        None \<Rightarrow> Some (ErrMissingCheck checkID)
      | Some hc \<Rightarrow>
          if Status hc = HealthCritical then Some (ErrCheckCritical checkID)
          else sessionChecksOk s node rest)"

definition SessionCreate ::
  "uint64 \<Rightarrow> Session \<Rightarrow> StateStoreDB \<Rightarrow> error + Session \<times> StateStoreDB" where
  "SessionCreate idx sess0 s =
     (if Session.ID sess0 = [] then Inl ErrMissingSessionID
      else if Behavior sess0 \<noteq> [] \<and> Behavior sess0 \<noteq> SessionKeysRelease
              \<and> Behavior sess0 \<noteq> SessionKeysDelete
        then Inl (ErrInvalidSessionBehavior (Behavior sess0))
      else
        (let sess1 = (if Behavior sess0 = [] then sess0\<lparr>Behavior := SessionKeysRelease\<rparr>
                      else sess0);
             sess = sess1\<lparr>CreateIndex := idx, ModifyIndex := idx\<rparr>
         in case tbl_first (nodes s) (Session.Node sess) of
              None \<Rightarrow> Inl ErrMissingNode
            | Some n \<Rightarrow>
                (case sessionChecksOk s (Session.Node sess) (Session.Checks sess) of
                   Some err \<Rightarrow> Inl err
                 | None \<Rightarrow>
                     Inr (sess, indexUpdate ''sessions'' idx
                            (s\<lparr>sessions := tbl_insert (Session.ID sess) sess (sessions s)\<rparr>)))))"

subsection \<open>Cascading deletes of the catalog\<close>

text \<open>
  Modelled from the spec: \<^verbatim>\<open>DeleteCheck\<close>, \<^verbatim>\<open>DeleteService\<close> and
  \<^verbatim>\<open>DeleteNode\<close> (sections 4.3 and 4.5). The delete of a check destroys the sessions
  of its node that list it; the delete of a service deletes the checks attached to it;
  the delete of a node deletes its services and checks and destroys its sessions. Each
  removal writes the log index to the row of its table. A delete whose target does not
  exist changes nothing (\<^verbatim>\<open>TestStateStore_DeleteNode\<close>,
  \<^verbatim>\<open>TestStateStore_DeleteService\<close>, \<^verbatim>\<open>TestStateStore_DeleteCheck\<close>).
\<close>

definition deleteCheckTxn :: "uint64 \<Rightarrow> string \<Rightarrow> string \<Rightarrow> StateStoreDB \<Rightarrow> StateStoreDB" where
  "deleteCheckTxn idx node checkID s =
     (case tbl_first (checks s) (node, checkID) of
        None \<Rightarrow> s
      | Some hc \<Rightarrow>
          (let s1 = indexUpdate ''checks'' idx
                      (s\<lparr>checks := tbl_delete (node, checkID) (checks s)\<rparr>);
               ids = map fst
                       (filter (\<lambda>row. Session.Node (snd row) = node
                                      \<and> checkID \<in> set (Session.Checks (snd row)))
                          (sessions s1))
           in fold (deleteSessionTxn idx) ids s1))"

definition deleteServiceTxn :: "uint64 \<Rightarrow> string \<Rightarrow> string \<Rightarrow> StateStoreDB \<Rightarrow> StateStoreDB" where
  "deleteServiceTxn idx node serviceID s =
     (case tbl_first (services s) (node, serviceID) of
        None \<Rightarrow> s
      | Some svc \<Rightarrow>
          (let cids = map (snd \<circ> fst)
                        (filter (\<lambda>row. fst (fst row) = node
                                       \<and> HealthCheck.ServiceID (snd row) = serviceID)
                           (checks s));
               s1 = fold (deleteCheckTxn idx node) cids s
           in indexUpdate ''services'' idx
                (s1\<lparr>services := tbl_delete (node, serviceID) (services s1)\<rparr>)))"

definition deleteNodeTxn :: "uint64 \<Rightarrow> string \<Rightarrow> StateStoreDB \<Rightarrow> StateStoreDB" where
  "deleteNodeTxn idx node s =
     (case tbl_first (nodes s) node of
        None \<Rightarrow> s
      | Some n \<Rightarrow>
          (let sids = map (snd \<circ> fst) (filter (\<lambda>row. fst (fst row) = node) (services s));
               s1 = fold (deleteServiceTxn idx node) sids s;
               cids = map (snd \<circ> fst) (filter (\<lambda>row. fst (fst row) = node) (checks s1));
               s2 = fold (deleteCheckTxn idx node) cids s1;
               s3 = indexUpdate ''nodes'' idx (s2\<lparr>nodes := tbl_delete node (nodes s2)\<rparr>);
               ids = map fst (filter (\<lambda>row. Session.Node (snd row) = node) (sessions s3))
           in fold (deleteSessionTxn idx) ids s3))"

definition DeleteCheck :: "uint64 \<Rightarrow> string \<Rightarrow> string \<Rightarrow> StateStoreDB \<Rightarrow> error + StateStoreDB" where
  "DeleteCheck idx node checkID s = Inr (deleteCheckTxn idx node checkID s)"

definition DeleteService :: "uint64 \<Rightarrow> string \<Rightarrow> string \<Rightarrow> StateStoreDB \<Rightarrow> error + StateStoreDB" where
  "DeleteService idx node serviceID s = Inr (deleteServiceTxn idx node serviceID s)"

definition DeleteNode :: "uint64 \<Rightarrow> string \<Rightarrow> StateStoreDB \<Rightarrow> error + StateStoreDB" where
  "DeleteNode idx node s = Inr (deleteNodeTxn idx node s)"

subsection \<open>ACLs\<close>

text \<open>
  Modelled from the spec: \<^verbatim>\<open>ACLSet\<close> and \<^verbatim>\<open>ACLDelete\<close> (section 3): an upsert by
  id that fails on an empty id (\<^verbatim>\<open>TestStateStore_ACLSet_ACLGet\<close>), and a delete that
  changes nothing when the id is unknown (\<^verbatim>\<open>TestStateStore_ACLDelete\<close>).
\<close>

definition ACLSet :: "uint64 \<Rightarrow> ACL \<Rightarrow> StateStoreDB \<Rightarrow> error + ACL \<times> StateStoreDB" where
  "ACLSet idx acl0 s =
     (if ACL.ID acl0 = [] then Inl ErrMissingACLID
      else
        (let acl = (case tbl_first (acls s) (ACL.ID acl0) of
                      Some existing \<Rightarrow>
                        acl0\<lparr>CreateIndex := CreateIndex existing, ModifyIndex := idx\<rparr>
                    | None \<Rightarrow> acl0\<lparr>CreateIndex := idx, ModifyIndex := idx\<rparr>)
         in Inr (acl, indexUpdate ''acls'' idx
                   (s\<lparr>acls := tbl_insert (ACL.ID acl) acl (acls s)\<rparr>))))"

definition ACLDelete :: "uint64 \<Rightarrow> string \<Rightarrow> StateStoreDB \<Rightarrow> error + StateStoreDB" where
  "ACLDelete idx aclID s =
     (case tbl_first (acls s) aclID of
        None \<Rightarrow> Inr s
      | Some acl \<Rightarrow> Inr (indexUpdate ''acls'' idx (s\<lparr>acls := tbl_delete aclID (acls s)\<rparr>)))"

subsection \<open>Restoring and dumping records\<close>

text \<open>
  Modelled from the spec: the restore methods that \<^verbatim>\<open>Restore\<close> calls (section 4.8).
  They receive no log index: the record is stored as it was dumped, and the row of its
  table is raised to the record's index (\<^verbatim>\<open>TestStateStore_ACL_Snapshot_Restore\<close>).
\<close>

definition KVSRestore :: "DirEntry \<Rightarrow> StateStoreDB \<Rightarrow> error + StateStoreDB" where
  "KVSRestore entry s =
     Inr (indexUpdateMax ''kvs'' (ModifyIndex entry)
            (s\<lparr>kvs := tbl_insert (DirEntry.Key entry) entry (kvs s)\<rparr>))"

definition TombstoneRestore :: "Tombstone \<Rightarrow> StateStoreDB \<Rightarrow> error + StateStoreDB" where
  "TombstoneRestore stone s =
     Inr (indexUpdateMax ''tombstones'' (Tombstone.Index stone)
            (s\<lparr>tombstones := tbl_insert (Tombstone.Key stone) stone (tombstones s)\<rparr>))"

definition SessionRestore :: "Session \<Rightarrow> StateStoreDB \<Rightarrow> error + StateStoreDB" where
  "SessionRestore sess s =
     Inr (indexUpdateMax ''sessions'' (ModifyIndex sess)
            (s\<lparr>sessions := tbl_insert (Session.ID sess) sess (sessions s)\<rparr>))"

definition ACLRestore :: "ACL \<Rightarrow> StateStoreDB \<Rightarrow> error + StateStoreDB" where
  "ACLRestore acl s =
     Inr (indexUpdateMax ''acls'' (ModifyIndex acl)
            (s\<lparr>acls := tbl_insert (ACL.ID acl) acl (acls s)\<rparr>))"

text \<open>
  Modelled from the spec: the dumps of a snapshot (section 4.8): every live row of a
  table, in the table's order; the services and the checks of one node.
\<close>

definition NodeDump :: "StateStoreDB \<Rightarrow> Node list" where
  "NodeDump s = tbl_rows (nodes s)"

definition ServiceDump :: "StateStoreDB \<Rightarrow> string \<Rightarrow> NodeService list" where
  "ServiceDump s node = tbl_rows (filter (\<lambda>row. fst (fst row) = node) (services s))"

definition CheckDump :: "StateStoreDB \<Rightarrow> string \<Rightarrow> HealthCheck list" where
  "CheckDump s node = tbl_rows (filter (\<lambda>row. fst (fst row) = node) (checks s))"

definition SessionDump :: "StateStoreDB \<Rightarrow> Session list" where
  "SessionDump s = tbl_rows (sessions s)"

definition ACLDump :: "StateStoreDB \<Rightarrow> ACL list" where
  "ACLDump s = tbl_rows (acls s)"

definition KVSDump :: "StateStoreDB \<Rightarrow> DirEntry list" where
  "KVSDump s = tbl_rows (kvs s)"

definition TombstoneDump :: "StateStoreDB \<Rightarrow> Tombstone list" where
  "TombstoneDump s = tbl_rows (tombstones s)"

subsection \<open>Reads\<close>

text \<open>
  Modelled from the spec: the read operations and their result indexes (sections 4.2
  to 4.4). \<^verbatim>\<open>Nodes\<close> is a whole-table query: its index is the row of the table. A
  query for the services or the checks of one node is a filtered query: its index is
  the larger of the row of the table and the largest \<open>ModifyIndex\<close> among the rows it
  returns, and the row of the table when it returns none (section 4.2; the tests
  \<^verbatim>\<open>TestStateStore_EnsureService\<close> and \<^verbatim>\<open>TestStateStore_NodeChecks\<close> of
  \<^verbatim>\<open>part_000\<close> expect the largest \<open>ModifyIndex\<close> of the returned rows alone, 20 and
  3, where this gives 30 and 6). The index of \<^verbatim>\<open>KVSList\<close> is the largest among the
  \<open>ModifyIndex\<close> of the entries and the index of the tombstones under the prefix
  (\<^verbatim>\<open>TestStateStore_ReapTombstones\<close>; \<^verbatim>\<open>TestStateStore_KVSList\<close> expects 4 while
  the row of the table is 5; \<^verbatim>\<open>TestFSM_TombstoneReap\<close> expects 0 once nothing is
  left under the prefix).
\<close>

definition Nodes :: "StateStoreDB \<Rightarrow> uint64 \<times> Node list" where
  "Nodes s = (IndexRow s ''nodes'', tbl_rows (nodes s))"

definition GetNode :: "StateStoreDB \<Rightarrow> string \<Rightarrow> Node option" where
  "GetNode s node = tbl_first (nodes s) node"

definition NodeServices :: "StateStoreDB \<Rightarrow> string \<Rightarrow> uint64 \<times> (Node \<times> NodeService list) option" where
  "NodeServices s node =
     (let svcs = ServiceDump s node
      in (max (IndexRow s ''services'') (max_of (map ModifyIndex svcs)),
          case tbl_first (nodes s) node of
            None \<Rightarrow> None
          | Some n \<Rightarrow> Some (n, svcs)))"

definition NodeChecks :: "StateStoreDB \<Rightarrow> string \<Rightarrow> uint64 \<times> HealthCheck list" where
  "NodeChecks s node =
     (let cs = CheckDump s node
      in (max (IndexRow s ''checks'') (max_of (map ModifyIndex cs)), cs))"

definition KVSGet :: "StateStoreDB \<Rightarrow> string \<Rightarrow> DirEntry option" where
  "KVSGet s key = tbl_first (kvs s) key"

definition KVSList :: "StateStoreDB \<Rightarrow> string \<Rightarrow> uint64 \<times> DirEntry list" where
  "KVSList s prefix =
     (let ents = tbl_rows (filter (\<lambda>row. HasPrefix (fst row) prefix) (kvs s));
          stones = tbl_rows (filter (\<lambda>row. HasPrefix (fst row) prefix) (tombstones s))
      in (max (max_of (map ModifyIndex ents)) (max_of (map Tombstone.Index stones)), ents))"

definition SessionGet :: "StateStoreDB \<Rightarrow> string \<Rightarrow> uint64 \<times> Session option" where
  "SessionGet s sessionID = (IndexRow s ''sessions'', tbl_first (sessions s) sessionID)"

definition ACLGet :: "StateStoreDB \<Rightarrow> string \<Rightarrow> ACL option" where
  "ACLGet s aclID = tbl_first (acls s) aclID"

text \<open>
  Modelled from the spec: \<^verbatim>\<open>CheckServiceNodes\<close> (sections 4.2 and 4.3) is the
  cross-table join: for every service of the given name it returns the node, the
  service and the checks, which are the checks of that node that are attached to the
  service or to no service (the spec does not say which checks a triple holds; a check
  of the node itself bears on every service of the node). Its result index is the
  largest of the rows of the node, service and check tables, so that a later change of
  any of the three tables is newer than it (the test
  \<^verbatim>\<open>TestStateStore_CheckServiceNodes\<close> of \<^verbatim>\<open>part_000\<close> expects 6 and one check at
  its first query, where this gives 7 and two checks).
\<close>

definition serviceChecks :: "StateStoreDB \<Rightarrow> string \<Rightarrow> string \<Rightarrow> HealthCheck list" where
  "serviceChecks s node serviceID =
     filter (\<lambda>c. HealthCheck.ServiceID c = [] \<or> HealthCheck.ServiceID c = serviceID)
       (CheckDump s node)"

definition CheckServiceNodes ::
  "StateStoreDB \<Rightarrow> string \<Rightarrow> uint64 \<times> (Node \<times> NodeService \<times> HealthCheck list) list" where
  "CheckServiceNodes s serviceName =
     (let rows = filter (\<lambda>row. NodeService.Service (snd row) = serviceName) (services s);
          results = concat (map (\<lambda>row.
                      case tbl_first (nodes s) (fst (fst row)) of
                        None \<Rightarrow> []
                      | Some n \<Rightarrow> [(n, snd row, serviceChecks s (fst (fst row)) (snd (fst row)))])
                    rows)
      in (maxIndex s [''nodes'', ''services'', ''checks''], results))"

subsection \<open>The store as the collaborator of the state machine\<close>

definition consul_store :: "StateStoreDB StateStore" where
  "consul_store =
     \<lparr>ss_NewStateStore = Inr NewStateStore,
      ss_EnsureRegistration = EnsureRegistration,
      ss_DeleteService = DeleteService,
      ss_DeleteCheck = DeleteCheck,
      ss_DeleteNode = DeleteNode,
      ss_KVSSet = KVSSet,
      ss_KVSDelete = KVSDelete,
      ss_KVSDeleteCAS = KVSDeleteCAS,
      ss_KVSDeleteTree = KVSDeleteTree,
      ss_KVSSetCAS = KVSSetCAS,
      ss_KVSLock = KVSLock,
      ss_KVSUnlock = KVSUnlock,
      ss_SessionCreate = SessionCreate,
      ss_SessionDestroy = SessionDestroy,
      ss_ACLSet = ACLSet,
      ss_ACLDelete = ACLDelete,
      ss_ReapTombstones = ReapTombstones,
      ss_KVSRestore = KVSRestore,
      ss_SessionRestore = SessionRestore,
      ss_ACLRestore = ACLRestore,
      ss_TombstoneRestore = TombstoneRestore,
      ss_LastIndex = StoreLastIndex,
      ss_NodeDump = (\<lambda>s. Inr (NodeDump s)),
      ss_ServiceDump = (\<lambda>s node. Inr (ServiceDump s node)),
      ss_CheckDump = (\<lambda>s node. Inr (CheckDump s node)),
      ss_SessionDump = (\<lambda>s. Inr (SessionDump s)),
      ss_ACLDump = (\<lambda>s. Inr (ACLDump s)),
      ss_KVSDump = (\<lambda>s. Inr (KVSDump s)),
      ss_TombstoneDump = (\<lambda>s. Inr (TombstoneDump s))\<rparr>"

text \<open>
  \<^verbatim>\<open>NewFSM\<close> starts the machine on an empty store. For concrete runs,
  \<open>failing_codec\<close> decodes nothing; a run updates the decoder of its request.
\<close>

definition failing_codec :: codec where
  "failing_codec =
     \<lparr>decode_RegisterRequest = (\<lambda>buf. Inl ErrDecode),
      decode_DeregisterRequest = (\<lambda>buf. Inl ErrDecode),
      decode_KVSRequest = (\<lambda>buf. Inl ErrDecode),
      decode_SessionRequest = (\<lambda>buf. Inl ErrDecode),
      decode_ACLRequest = (\<lambda>buf. Inl ErrDecode),
      decode_TombstoneRequest = (\<lambda>buf. Inl ErrDecode)\<rparr>"

definition NewFSM :: "StateStoreDB consulFSM" where
  "NewFSM = \<lparr>logger = [], state = NewStateStore\<rparr>"

section \<open>Notions used in the statements\<close>

text \<open>
  The type byte without the ignore-if-unknown bit, whether the bit is set, and the
  delete that a Deregister request selects.
\<close>

definition masked_type :: "byte \<Rightarrow> byte" where
  "masked_type b = b AND NOT IgnoreUnknownTypeFlag"

definition flagged :: "byte \<Rightarrow> bool" where
  "flagged b \<longleftrightarrow> b AND IgnoreUnknownTypeFlag = IgnoreUnknownTypeFlag"

definition deregister_delete ::
  "'s StateStore \<Rightarrow> uint64 \<Rightarrow> DeregisterRequest \<Rightarrow> 's \<Rightarrow> error + 's" where
  "deregister_delete ss index req s =
     (if DeregisterRequest.ServiceID req \<noteq> [] then
        ss_DeleteService ss index (DeregisterRequest.Node req) (DeregisterRequest.ServiceID req) s
      else if DeregisterRequest.CheckID req \<noteq> [] then
        ss_DeleteCheck ss index (DeregisterRequest.Node req) (DeregisterRequest.CheckID req) s
      else ss_DeleteNode ss index (DeregisterRequest.Node req) s)"


text \<open>
  Running a second store operation on the store the first one produced, and the keys
  that a tree delete removes.
\<close>

definition then_do :: "error + 'a \<Rightarrow> ('a \<Rightarrow> error + 'a) \<Rightarrow> error + 'a" where
  "then_do r f = (case r of Inl err \<Rightarrow> Inl err | Inr s \<Rightarrow> f s)"

definition tree_keys :: "StateStoreDB \<Rightarrow> string \<Rightarrow> string list" where
  "tree_keys s prefix = map fst (filter (\<lambda>row. HasPrefix (fst row) prefix) (kvs s))"

text \<open>The tombstones under a prefix, which \<open>KVSList\<close> counts in its result index.\<close>

definition TombstonesUnder :: "StateStoreDB \<Rightarrow> string \<Rightarrow> Tombstone list" where
  "TombstonesUnder s prefix =
     tbl_rows (filter (\<lambda>row. HasPrefix (fst row) prefix) (tombstones s))"

section \<open>Stores and commands of the tests\<close>

text \<open>
  The helpers of the tests (\<^verbatim>\<open>testRegisterNode\<close>, \<^verbatim>\<open>testRegisterService\<close>,
  \<^verbatim>\<open>testRegisterCheck\<close>, \<^verbatim>\<open>testSetKey\<close>), which fail the test on an error, and
  the stores that the tests build with them.
\<close>

definition ok_store :: "error + StateStoreDB \<Rightarrow> StateStoreDB" where
  "ok_store r = (case r of Inl err \<Rightarrow> NewStateStore | Inr s \<Rightarrow> s)"

definition testRegisterNode :: "uint64 \<Rightarrow> string \<Rightarrow> StateStoreDB \<Rightarrow> StateStoreDB" where
  "testRegisterNode idx nodeID s =
     ok_store (EnsureNode idx
       \<lparr>CreateIndex = 0, ModifyIndex = 0, Node.Node = nodeID, Node.Address = []\<rparr> s)"

definition testRegisterService :: "uint64 \<Rightarrow> string \<Rightarrow> string \<Rightarrow> StateStoreDB \<Rightarrow> StateStoreDB" where
  "testRegisterService idx nodeID serviceID s =
     ok_store (EnsureService idx nodeID
       \<lparr>CreateIndex = 0, ModifyIndex = 0, NodeService.ID = serviceID,
        NodeService.Service = serviceID, Tags = [], NodeService.Address = ''1.1.1.1'',
        Port = 1111\<rparr> s)"

definition testRegisterCheck ::
  "uint64 \<Rightarrow> string \<Rightarrow> string \<Rightarrow> string \<Rightarrow> string \<Rightarrow> StateStoreDB \<Rightarrow> StateStoreDB" where
  "testRegisterCheck idx nodeID serviceID checkID st s =
     ok_store (EnsureCheck idx
       \<lparr>CreateIndex = 0, ModifyIndex = 0, HealthCheck.Node = nodeID,
        HealthCheck.CheckID = checkID, HealthCheck.Name = [], Status = st, Notes = [],
        Output = [], HealthCheck.ServiceID = serviceID, ServiceName = []\<rparr> s)"

definition test_DirEntry :: "string \<Rightarrow> byte list \<Rightarrow> DirEntry" where
  "test_DirEntry key val =
     \<lparr>CreateIndex = 0, ModifyIndex = 0, LockIndex = 0, DirEntry.Key = key, Flags = 0,
      Value = val, DirEntry.Session = []\<rparr>"

definition testSetKey :: "uint64 \<Rightarrow> string \<Rightarrow> byte list \<Rightarrow> StateStoreDB \<Rightarrow> StateStoreDB" where
  "testSetKey idx key val s = ok_store (KVSSet idx (test_DirEntry key val) s)"

text \<open>\<^verbatim>\<open>TestStateStore_CheckServiceNodes\<close>, up to its first query.\<close>

definition csn_store :: StateStoreDB where
  "csn_store =
     (testRegisterCheck 7 ''node2'' ''service2'' ''check4'' HealthPassing
     (testRegisterCheck 6 ''node1'' ''service1'' ''check3'' HealthPassing
     (testRegisterService 5 ''node2'' ''service2''
     (testRegisterService 4 ''node1'' ''service1''
     (testRegisterCheck 3 ''node2'' [] ''check2'' HealthPassing
     (testRegisterCheck 2 ''node1'' [] ''check1'' HealthPassing
     (testRegisterNode 1 ''node2''
     (testRegisterNode 0 ''node1'' NewStateStore))))))))"

text \<open>\<^verbatim>\<open>TestStateStore_ReapTombstones\<close>, up to its first reap.\<close>

definition reap_store :: StateStoreDB where
  "reap_store =
     ok_store (KVSDelete 7 ''foo/moo''
    (ok_store (KVSDelete 6 ''foo/baz''
     (testSetKey 5 ''foo/zoo'' [98]
     (testSetKey 4 ''foo/moo'' [98]
     (testSetKey 3 ''foo/baz'' [98]
     (testSetKey 2 ''foo/bar'' [98]
     (testSetKey 1 ''foo'' [102] NewStateStore))))))))"

text \<open>\<^verbatim>\<open>TestStateStore_DeleteNode\<close>, after the node has been deleted at index 3.\<close>

definition dn_store :: StateStoreDB where
  "dn_store =
     ok_store (DeleteNode 3 ''node1''
       (testRegisterCheck 2 ''node1'' [] ''check1'' HealthPassing
       (testRegisterService 1 ''node1'' ''service1''
       (testRegisterNode 0 ''node1'' NewStateStore))))"

text \<open>The spec's scenario 2 (CAS semantics): \<open>foo\<close> is set at index 1.\<close>

definition cas_store :: StateStoreDB where
  "cas_store = testSetKey 1 ''foo'' [97] NewStateStore"

text \<open>
  \<^verbatim>\<open>TestFSM_KVSLock\<close> and \<^verbatim>\<open>TestFSM_KVSUnlock\<close>: node \<open>foo\<close> at index 1, a session
  on it at index 2, and the entry that the lock request carries.
\<close>

definition test_Session :: Session where
  "test_Session =
     \<lparr>CreateIndex = 0, ModifyIndex = 0, Session.ID = ''session1'', Session.Name = [],
      Session.Node = ''foo'', Session.Checks = [], LockDelay = 0, Behavior = [], TTL = []\<rparr>"

definition lock_store :: StateStoreDB where
  "lock_store =
     (case SessionCreate 2 test_Session (testRegisterNode 1 ''foo'' NewStateStore) of
        Inl err \<Rightarrow> NewStateStore
      | Inr (sess, s) \<Rightarrow> s)"

definition lock_entry :: DirEntry where
  "lock_entry = (test_DirEntry ''/test/path'' [116])\<lparr>DirEntry.Session := ''session1''\<rparr>"

text \<open>
  \<^verbatim>\<open>TestFSM_IgnoreUnknown\<close>: a command of type \<open>b\<close>; and a codec that decodes every
  buffer to one given request.
\<close>

definition unknown_log :: "byte \<Rightarrow> raft_Log" where
  "unknown_log b = \<lparr>raft_Log.Index = 1, Data = [b, 1, 2, 3]\<rparr>"

definition kvs_codec :: "KVSRequest \<Rightarrow> codec" where
  "kvs_codec req = failing_codec\<lparr>decode_KVSRequest := (\<lambda>buf. Inr req)\<rparr>"

definition deregister_codec :: "DeregisterRequest \<Rightarrow> codec" where
  "deregister_codec req = failing_codec\<lparr>decode_DeregisterRequest := (\<lambda>buf. Inr req)\<rparr>"

text \<open>\<^verbatim>\<open>TestFSM_KVSSet\<close>: the request that sets \<open>/test/path\<close>.\<close>

definition set_request :: KVSRequest where
  "set_request =
     \<lparr>KVSRequest.Datacenter = ''dc1'', KVSRequest.Op = structs_KVSSet,
      DirEnt = test_DirEntry ''/test/path'' [116]\<rparr>"

text \<open>
  \<^verbatim>\<open>TestFSM_DeregisterService\<close>, with a check of the service registered as well: a
  request that names both the service and the check.
\<close>

definition dereg_store :: StateStoreDB where
  "dereg_store =
     (testRegisterCheck 1 ''foo'' ''db'' ''db'' HealthPassing
     (testRegisterService 1 ''foo'' ''db''
     (testRegisterNode 1 ''foo'' NewStateStore)))"

definition dereg_request :: DeregisterRequest where
  "dereg_request =
     \<lparr>DeregisterRequest.Datacenter = ''dc1'', DeregisterRequest.Node = ''foo'',
      DeregisterRequest.ServiceID = ''db'', DeregisterRequest.CheckID = ''db''\<rparr>"

text \<open>A store whose \<^verbatim>\<open>DeleteService\<close> fails.\<close>

definition broken_store :: "StateStoreDB StateStore" where
  "broken_store =
     consul_store\<lparr>ss_DeleteService := (\<lambda>idx node serviceID s. Inl (ErrStore ''failed''))\<rparr>"

text \<open>
  A snapshot stream that holds one K/V record and then a record of a type that
  \<^verbatim>\<open>Restore\<close> does not know; and a machine that has state of its own before the
  restore.
\<close>

definition bad_stream :: snapshot_stream where
  "bad_stream =
     \<lparr>stream_header = Inr \<lparr>LastIndex = 8\<rparr>,
      stream_frames =
        [Frame KVSRequestType
           (PDirEntry ((test_DirEntry ''/test'' [102])\<lparr>CreateIndex := 8, ModifyIndex := 8\<rparr>)),
         Frame 99 PUndecodable,
         Frame KVSRequestType (PDirEntry (test_DirEntry ''/never'' []))]\<rparr>"

definition used_FSM :: "StateStoreDB consulFSM" where
  "used_FSM = \<lparr>logger = [], state = cas_store\<rparr>"

text \<open>
  The smallest store on which a snapshot and a restore are seen to differ: a node
  registered at index 1 and a key set at index 2.
\<close>

definition small_store :: StateStoreDB where
  "small_store = testSetKey 2 ''/test'' [102] (testRegisterNode 1 ''foo'' NewStateStore)"

text \<open>
  A snapshot of the machine's store, persisted to an empty sink and restored into a
  new machine.
\<close>

definition snapshot_restore ::
  "sink_io \<Rightarrow> StateStoreDB \<Rightarrow> error option \<times> StateStoreDB consulFSM" where
  "snapshot_restore io s =
     (case Persist consul_store io (Snapshot \<lparr>logger = [], state = s\<rparr>) empty_sink of
        (Some err, sink) \<Rightarrow> (Some err, NewFSM)
      | (None, sink) \<Rightarrow> Restore consul_store NewFSM (sink_stream sink))"

text \<open>Commands and machines of the runs below.\<close>

definition dereg_log :: raft_Log where
  "dereg_log = \<lparr>raft_Log.Index = 2, Data = [DeregisterRequestType, 7]\<rparr>"

definition dereg_FSM :: "StateStoreDB consulFSM" where
  "dereg_FSM = \<lparr>logger = [], state = dereg_store\<rparr>"

definition cas_request :: "uint64 \<Rightarrow> KVSRequest" where
  "cas_request cidx =
     \<lparr>KVSRequest.Datacenter = ''dc1'', KVSRequest.Op = structs_KVSCAS,
      DirEnt = (test_DirEntry ''foo'' [98])\<lparr>ModifyIndex := cidx\<rparr>\<rparr>"

definition cas_FSM :: "StateStoreDB consulFSM" where
  "cas_FSM = \<lparr>logger = [], state = cas_store\<rparr>"

definition locked_store :: StateStoreDB where
  "locked_store =
     (case KVSLock 3 lock_entry lock_store of
        Inl err \<Rightarrow> NewStateStore
      | Inr (ok, s) \<Rightarrow> s)"


section \<open>Notions of the index rows and of the snapshot round trip\<close>

text \<open>
  A write at a log index leaves every row of the index table as it was or sets it to
  that log index.
\<close>

definition index_written :: "uint64 \<Rightarrow> StateStoreDB \<Rightarrow> StateStoreDB \<Rightarrow> bool" where
  "index_written idx s s' \<longleftrightarrow>
     (\<forall>tbl. IndexRow s' tbl = IndexRow s tbl \<or> IndexRow s' tbl = idx)"

text \<open>
  \<^verbatim>\<open>Restore\<close> registers every node, service and check again, at the index of the
  header: \<open>reindex L\<close> is an entity whose two indexes are \<open>L\<close>, and \<open>reindex_rows L\<close>
  a table of such entities under the keys they had. A check that names a service is
  registered with the name that the service has at the time (\<open>named_check\<close>), so
  \<open>restored_check L s\<close> is what the registration at \<open>L\<close> makes of a check of the store
  \<open>s\<close>.
\<close>

definition reindex :: "uint64 \<Rightarrow> 'a RaftIndex_scheme \<Rightarrow> 'a RaftIndex_scheme" where
  "reindex L x = x\<lparr>CreateIndex := L, ModifyIndex := L\<rparr>"

definition reindex_rows :: "uint64 \<Rightarrow> ('k, 'a RaftIndex_scheme) table \<Rightarrow> ('k, 'a RaftIndex_scheme) table" where
  "reindex_rows L t = map (\<lambda>row. (fst row, reindex L (snd row))) t"

definition named_check :: "StateStoreDB \<Rightarrow> HealthCheck \<Rightarrow> HealthCheck" where
  "named_check s hc =
     (if HealthCheck.ServiceID hc = [] then hc
      else case tbl_first (services s) (HealthCheck.Node hc, HealthCheck.ServiceID hc) of
             None \<Rightarrow> hc
           | Some svc \<Rightarrow> hc\<lparr>ServiceName := NodeService.Service svc\<rparr>)"

definition restored_check :: "uint64 \<Rightarrow> StateStoreDB \<Rightarrow> HealthCheck \<Rightarrow> HealthCheck" where
  "restored_check L s hc = reindex L (named_check s hc)"

text \<open>
  The stores that the round trip is stated for. Every table is in the order of its
  keys, and a row is stored under the key that it carries. A service and a check
  belong to a registered node; a check has a status, and a check that names a service
  names a service of its node.
\<close>

definition tbl_sorted :: "('k::linorder, 'v) table \<Rightarrow> bool" where
  "tbl_sorted t \<longleftrightarrow> sorted_wrt (<) (map fst t)"

definition store_wf :: "StateStoreDB \<Rightarrow> bool" where
  "store_wf s \<longleftrightarrow>
     tbl_sorted (nodes s) \<and> tbl_sorted (services s) \<and> tbl_sorted (checks s)
     \<and> tbl_sorted (kvs s) \<and> tbl_sorted (tombstones s) \<and> tbl_sorted (sessions s)
     \<and> tbl_sorted (acls s)
     \<and> (\<forall>row \<in> set (nodes s). Node.Node (snd row) = fst row)
     \<and> (\<forall>row \<in> set (services s).
           NodeService.ID (snd row) = snd (fst row)
           \<and> tbl_first (nodes s) (fst (fst row)) \<noteq> None)
     \<and> (\<forall>row \<in> set (checks s).
           HealthCheck.Node (snd row) = fst (fst row)
           \<and> HealthCheck.CheckID (snd row) = snd (fst row)
           \<and> Status (snd row) \<noteq> []
           \<and> tbl_first (nodes s) (fst (fst row)) \<noteq> None
           \<and> (HealthCheck.ServiceID (snd row) = []
              \<or> tbl_first (services s) (fst (fst row), HealthCheck.ServiceID (snd row)) \<noteq> None))
     \<and> (\<forall>row \<in> set (kvs s). DirEntry.Key (snd row) = fst row)
     \<and> (\<forall>row \<in> set (tombstones s). Tombstone.Key (snd row) = fst row)
     \<and> (\<forall>row \<in> set (sessions s). Session.ID (snd row) = fst row)
     \<and> (\<forall>row \<in> set (acls s). ACL.ID (snd row) = fst row)"

text \<open>
  The records that \<^verbatim>\<open>Persist\<close> writes for a store: for each node its
  registration, then one registration for each of its services and one for each of
  its checks; then the sessions, the ACLs, the K/V entries and the tombstones. A record
  reaches the sink as its type byte and its encoding.
\<close>

definition node_request :: "Node \<Rightarrow> RegisterRequest" where
  "node_request n =
     \<lparr>RegisterRequest.Datacenter = [], RegisterRequest.Node = Node.Node n,
      RegisterRequest.Address = Node.Address n, RegisterRequest.Service = None,
      Check = None, RegisterRequest.Checks = []\<rparr>"

definition register_frame :: "RegisterRequest \<Rightarrow> frame" where
  "register_frame req = Frame RegisterRequestType (PRegisterRequest req)"

definition node_frames :: "StateStoreDB \<Rightarrow> Node \<Rightarrow> frame list" where
  "node_frames s n =
     register_frame (node_request n)
     # map (\<lambda>srv. register_frame ((node_request n)\<lparr>RegisterRequest.Service := Some srv\<rparr>))
         (ServiceDump s (Node.Node n))
     @ map (\<lambda>c. register_frame
                  ((node_request n)\<lparr>RegisterRequest.Service := None, Check := Some c\<rparr>))
         (CheckDump s (Node.Node n))"

definition snapshot_frames :: "StateStoreDB \<Rightarrow> frame list" where
  "snapshot_frames s =
     concat (map (node_frames s) (NodeDump s))
     @ map (\<lambda>x. Frame SessionRequestType (PSession x)) (SessionDump s)
     @ map (\<lambda>x. Frame ACLRequestType (PACL x)) (ACLDump s)
     @ map (\<lambda>x. Frame KVSRequestType (PDirEntry x)) (KVSDump s)
     @ map (\<lambda>x. Frame TombstoneRequestType (PDirEntry (fake_DirEntry x))) (TombstoneDump s)"

fun frame_items :: "frame \<Rightarrow> item list" where
  "frame_items (Frame t p) = [IType t, IRecord p]"
| "frame_items (ReadFailure err) = []"

text \<open>
  What a segment of the stream leaves alone, and the rows of the catalog tables in a
  store that holds only what has been registered at \<open>L\<close>.
\<close>

definition same_catalog :: "StateStoreDB \<Rightarrow> StateStoreDB \<Rightarrow> bool" where
  "same_catalog st' st \<longleftrightarrow>
     nodes st' = nodes st \<and> services st' = services st \<and> checks st' = checks st
     \<and> IndexRow st' ''nodes'' = IndexRow st ''nodes''
     \<and> IndexRow st' ''services'' = IndexRow st ''services''
     \<and> IndexRow st' ''checks'' = IndexRow st ''checks''"

definition same_others :: "StateStoreDB \<Rightarrow> StateStoreDB \<Rightarrow> bool" where
  "same_others st' st \<longleftrightarrow>
     kvs st' = kvs st \<and> tombstones st' = tombstones st \<and> sessions st' = sessions st
     \<and> acls st' = acls st \<and> IndexRow st' ''sessions'' = IndexRow st ''sessions''"

definition catalog_rows :: "uint64 \<Rightarrow> StateStoreDB \<Rightarrow> bool" where
  "catalog_rows L st \<longleftrightarrow>
     IndexRow st ''nodes'' = (if nodes st = [] then 0 else L)
     \<and> IndexRow st ''services'' = (if services st = [] then 0 else L)
     \<and> IndexRow st ''checks'' = (if checks st = [] then 0 else L)"

text \<open>The store of the new machine after the round trip.\<close>

definition restored :: "sink_io \<Rightarrow> StateStoreDB \<Rightarrow> StateStoreDB" where
  "restored io s = state (snd (snapshot_restore io s))"

text \<open>
  The store that \<^verbatim>\<open>TestFSM_SnapshotRestore\<close> builds before it takes the snapshot; and
  a store in which a service was registered again under another name after a check had
  been attached to it.
\<close>

definition snapshot_test_catalog :: StateStoreDB where
  "snapshot_test_catalog =
     ok_store (EnsureCheck 7
       \<lparr>CreateIndex = 0, ModifyIndex = 0, HealthCheck.Node = ''foo'',
        HealthCheck.CheckID = ''web'', HealthCheck.Name = ''web connectivity'',
        Status = HealthPassing, Notes = [], Output = [], HealthCheck.ServiceID = ''web'',
        ServiceName = []\<rparr>
       (testRegisterService 6 ''baz'' ''db''
       (testRegisterService 5 ''baz'' ''web''
       (testRegisterService 4 ''foo'' ''db''
       (testRegisterService 3 ''foo'' ''web''
       (testRegisterNode 2 ''baz''
       (testRegisterNode 1 ''foo'' NewStateStore)))))))"

definition snapshot_test_store :: StateStoreDB where
  "snapshot_test_store =
     ok_store (KVSDelete 12 ''/remove''
       (testSetKey 11 ''/remove'' [102, 111, 111]
       (case ACLSet 10
               \<lparr>CreateIndex = 0, ModifyIndex = 0, ACL.ID = ''acl1'', ACL.Name = ''User Token'',
                Type = [], Rules = []\<rparr>
               (case SessionCreate 9 test_Session
                       (testSetKey 8 ''/test'' [102, 111, 111] snapshot_test_catalog) of
                  Inl err \<Rightarrow> NewStateStore
                | Inr (sess, s) \<Rightarrow> s) of
          Inl err \<Rightarrow> NewStateStore
        | Inr (acl, s) \<Rightarrow> s)))"

definition renamed_store :: StateStoreDB where
  "renamed_store =
     ok_store (EnsureService 4 ''foo''
       \<lparr>CreateIndex = 0, ModifyIndex = 0, NodeService.ID = ''web'',
        NodeService.Service = ''web2'', Tags = [], NodeService.Address = ''1.1.1.1'',
        Port = 1111\<rparr>
       (testRegisterCheck 3 ''foo'' ''web'' ''check1'' HealthPassing
       (testRegisterService 2 ''foo'' ''web''
       (testRegisterNode 1 ''foo'' NewStateStore))))"


section \<open>Tables, maxima and the tables that an operation leaves alone\<close>

lemma tbl_first_insert:
  "tbl_first (tbl_insert k v t) k' = (if k' = k then Some v else tbl_first t k')"
  by (induction t) (auto simp: tbl_first_def)

lemma tbl_first_delete:
  "tbl_first (tbl_delete k t) k' = (if k' = k then None else tbl_first t k')"
  by (induction t) (auto simp: tbl_first_def tbl_delete_def)

lemma tbl_first_None_iff: "tbl_first t k = None \<longleftrightarrow> k \<notin> fst ` set t"
  by (simp add: tbl_first_def map_of_eq_None_iff)

lemma tbl_delete_absent: "tbl_first t k = None \<Longrightarrow> tbl_delete k t = t"
  by (induction t) (auto simp: tbl_first_def tbl_delete_def split: if_splits)

lemma max_of_Max: "max_of xs = Max (insert 0 (set xs))"
proof -
  have "Max (set (0 # xs)) = fold max xs 0"
    by (rule Max.set_eq_fold)
  then show ?thesis by (simp add: max_of_def)
qed

lemma max_of_ge: "x \<in> set xs \<Longrightarrow> x \<le> max_of xs"
  by (simp add: max_of_Max)

lemma max_of_le_iff: "max_of xs \<le> b \<longleftrightarrow> (\<forall>x\<in>set xs. x \<le> b)"
  by (simp add: max_of_Max)

lemma max_of_less_iff: "max_of xs < b \<longleftrightarrow> 0 < b \<and> (\<forall>x\<in>set xs. x < b)"
  by (simp add: max_of_Max)

lemma max_of_in: "max_of xs = 0 \<or> max_of xs \<in> set xs"
proof -
  have "Max (insert 0 (set xs)) \<in> insert 0 (set xs)"
    by (rule Max_in) simp_all
  then show ?thesis by (simp add: max_of_Max)
qed

lemma max_of_mono: "set xs \<subseteq> set ys \<Longrightarrow> max_of xs \<le> max_of ys"
  by (auto simp: max_of_le_iff intro: max_of_ge)

lemma tbl_insert_mem: "(k, v) \<in> set (tbl_insert k v t)"
  by (induction t) auto

lemma tbl_insert_other: "(k', v') \<in> set t \<Longrightarrow> k' \<noteq> k \<Longrightarrow> (k', v') \<in> set (tbl_insert k v t)"
  by (induction t) auto

lemma tbl_first_mem: "tbl_first t k = Some v \<Longrightarrow> (k, v) \<in> set t"
  by (simp add: tbl_first_def map_of_SomeD)


lemma KVSGet_kvsSetTxn:
  "KVSGet (kvsSetTxn idx entry s) k =
     (if k = DirEntry.Key entry
      then Some (case KVSGet s (DirEntry.Key entry) of
                   Some existing \<Rightarrow> entry\<lparr>CreateIndex := CreateIndex existing, ModifyIndex := idx\<rparr>
                 | None \<Rightarrow> entry\<lparr>CreateIndex := idx, ModifyIndex := idx\<rparr>)
      else KVSGet s k)"
  by (simp add: KVSGet_def kvsSetTxn_def indexUpdate_def Let_def tbl_first_insert)


lemma kvsDeleteTxn_frame [simp]:
  "nodes (kvsDeleteTxn idx k s) = nodes s"
  "services (kvsDeleteTxn idx k s) = services s"
  "checks (kvsDeleteTxn idx k s) = checks s"
  "sessions (kvsDeleteTxn idx k s) = sessions s"
  "acls (kvsDeleteTxn idx k s) = acls s"
  by (simp_all add: kvsDeleteTxn_def indexUpdate_def split: option.splits)

lemma kvsSetTxn_frame [simp]:
  "nodes (kvsSetTxn idx e s) = nodes s"
  "services (kvsSetTxn idx e s) = services s"
  "checks (kvsSetTxn idx e s) = checks s"
  "sessions (kvsSetTxn idx e s) = sessions s"
  "acls (kvsSetTxn idx e s) = acls s"
  by (simp_all add: kvsSetTxn_def indexUpdate_def Let_def)

lemma invalidateLock_frame [simp]:
  "nodes (invalidateLock idx b e s) = nodes s"
  "services (invalidateLock idx b e s) = services s"
  "checks (invalidateLock idx b e s) = checks s"
  "sessions (invalidateLock idx b e s) = sessions s"
  "acls (invalidateLock idx b e s) = acls s"
  by (simp_all add: invalidateLock_def)

lemma fold_invalidateLock_frame [simp]:
  "nodes (fold (invalidateLock idx b) es s) = nodes s"
  "services (fold (invalidateLock idx b) es s) = services s"
  "checks (fold (invalidateLock idx b) es s) = checks s"
  "sessions (fold (invalidateLock idx b) es s) = sessions s"
  "acls (fold (invalidateLock idx b) es s) = acls s"
  by (induction es arbitrary: s) simp_all

lemma deleteSessionTxn_frame [simp]:
  "nodes (deleteSessionTxn idx i s) = nodes s"
  "services (deleteSessionTxn idx i s) = services s"
  "checks (deleteSessionTxn idx i s) = checks s"
  "acls (deleteSessionTxn idx i s) = acls s"
  by (simp_all add: deleteSessionTxn_def indexUpdate_def Let_def split: option.splits)

lemma sessions_deleteSessionTxn:
  "sessions (deleteSessionTxn idx i s) = tbl_delete i (sessions s)"
  by (simp add: deleteSessionTxn_def indexUpdate_def Let_def tbl_delete_absent split: option.splits)

lemma fold_deleteSessionTxn_frame [simp]:
  "nodes (fold (deleteSessionTxn idx) ids s) = nodes s"
  "services (fold (deleteSessionTxn idx) ids s) = services s"
  "checks (fold (deleteSessionTxn idx) ids s) = checks s"
  "acls (fold (deleteSessionTxn idx) ids s) = acls s"
  by (induction ids arbitrary: s) simp_all

lemma deleteCheckTxn_frame [simp]:
  "nodes (deleteCheckTxn idx n c s) = nodes s"
  "services (deleteCheckTxn idx n c s) = services s"
  "acls (deleteCheckTxn idx n c s) = acls s"
  by (simp_all add: deleteCheckTxn_def indexUpdate_def Let_def split: option.splits)

lemma checks_deleteCheckTxn:
  "checks (deleteCheckTxn idx n c s) = tbl_delete (n, c) (checks s)"
  by (simp add: deleteCheckTxn_def indexUpdate_def Let_def tbl_delete_absent split: option.splits)

lemma fold_deleteCheckTxn_frame [simp]:
  "nodes (fold (deleteCheckTxn idx n) cs s) = nodes s"
  "services (fold (deleteCheckTxn idx n) cs s) = services s"
  "acls (fold (deleteCheckTxn idx n) cs s) = acls s"
  by (induction cs arbitrary: s) simp_all

lemma deleteServiceTxn_frame [simp]:
  "nodes (deleteServiceTxn idx n i s) = nodes s"
  "acls (deleteServiceTxn idx n i s) = acls s"
  by (simp_all add: deleteServiceTxn_def indexUpdate_def Let_def split: option.splits)

lemma services_deleteServiceTxn:
  "services (deleteServiceTxn idx n i s) = tbl_delete (n, i) (services s)"
  by (simp add: deleteServiceTxn_def indexUpdate_def Let_def tbl_delete_absent split: option.splits)

lemma fold_deleteServiceTxn_frame [simp]:
  "nodes (fold (deleteServiceTxn idx n) is s) = nodes s"
  "acls (fold (deleteServiceTxn idx n) is s) = acls s"
  by (induction "is" arbitrary: s) simp_all

lemma nodes_deleteNodeTxn:
  "nodes (deleteNodeTxn idx n s) = tbl_delete n (nodes s)"
  by (simp add: deleteNodeTxn_def indexUpdate_def Let_def tbl_delete_absent split: option.splits)

lemma kvs_kvsDeleteTxn: "kvs (kvsDeleteTxn idx k s) = tbl_delete k (kvs s)"
  by (simp add: kvsDeleteTxn_def indexUpdate_def tbl_delete_absent split: option.splits)

lemma kvs_fold_kvsDeleteTxn:
  "kvs (fold (kvsDeleteTxn idx) ks s) = filter (\<lambda>row. fst row \<notin> set ks) (kvs s)"
proof (induction ks arbitrary: s)
  case Nil
  then show ?case by simp
next
  case (Cons k ks)
  show ?case
    by (simp add: Cons.IH kvs_kvsDeleteTxn tbl_delete_def conj_commute)
qed

lemma fold_kvsDeleteTxn_absent:
  "\<forall>k\<in>set ks. tbl_first (kvs s) k = None \<Longrightarrow> fold (kvsDeleteTxn idx) ks s = s"
  by (induction ks arbitrary: s) (simp_all add: kvsDeleteTxn_def)

lemma deleteNodeTxn_absent: "tbl_first (nodes s) n = None \<Longrightarrow> deleteNodeTxn idx n s = s"
  by (simp add: deleteNodeTxn_def)

lemma deleteServiceTxn_absent:
  "tbl_first (services s) (n, i) = None \<Longrightarrow> deleteServiceTxn idx n i s = s"
  by (simp add: deleteServiceTxn_def)

lemma deleteCheckTxn_absent:
  "tbl_first (checks s) (n, c) = None \<Longrightarrow> deleteCheckTxn idx n c s = s"
  by (simp add: deleteCheckTxn_def)

lemma kvsDeleteTxn_absent: "tbl_first (kvs s) k = None \<Longrightarrow> kvsDeleteTxn idx k s = s"
  by (simp add: kvsDeleteTxn_def)

lemma deleteSessionTxn_absent:
  "tbl_first (sessions s) i = None \<Longrightarrow> deleteSessionTxn idx i s = s"
  by (simp add: deleteSessionTxn_def)

lemma deleteNodeTxn_twice: "deleteNodeTxn idx' n (deleteNodeTxn idx n s) = deleteNodeTxn idx n s"
  by (rule deleteNodeTxn_absent) (simp add: nodes_deleteNodeTxn tbl_first_delete)

lemma deleteServiceTxn_twice:
  "deleteServiceTxn idx' n i (deleteServiceTxn idx n i s) = deleteServiceTxn idx n i s"
  by (rule deleteServiceTxn_absent) (simp add: services_deleteServiceTxn tbl_first_delete)

lemma deleteCheckTxn_twice:
  "deleteCheckTxn idx' n c (deleteCheckTxn idx n c s) = deleteCheckTxn idx n c s"
  by (rule deleteCheckTxn_absent) (simp add: checks_deleteCheckTxn tbl_first_delete)

lemma kvsDeleteTxn_twice: "kvsDeleteTxn idx' k (kvsDeleteTxn idx k s) = kvsDeleteTxn idx k s"
  by (rule kvsDeleteTxn_absent) (simp add: kvs_kvsDeleteTxn tbl_first_delete)

lemma deleteSessionTxn_twice:
  "deleteSessionTxn idx' i (deleteSessionTxn idx i s) = deleteSessionTxn idx i s"
  by (rule deleteSessionTxn_absent) (simp add: sessions_deleteSessionTxn tbl_first_delete)

lemma KVSDeleteTree_keys: "KVSDeleteTree idx prefix s = Inr (fold (kvsDeleteTxn idx) (tree_keys s prefix) s)"
  by (simp add: KVSDeleteTree_def tree_keys_def)

lemma tree_keys_after:
  "tree_keys (fold (kvsDeleteTxn idx) (tree_keys s prefix) s) prefix = []"
  by (auto simp: tree_keys_def kvs_fold_kvsDeleteTxn filter_empty_conv)

lemma tree_keys_KVSList: "tree_keys s prefix = [] \<longleftrightarrow> snd (KVSList s prefix) = []"
  by (auto simp: tree_keys_def KVSList_def Let_def tbl_rows_def filter_empty_conv)


section \<open>Properties of Apply\<close>

lemma flag_bit: "bit IgnoreUnknownTypeFlag n \<longleftrightarrow> n = 7"
proof -
  have eq: "IgnoreUnknownTypeFlag = 2 ^ 7"
    by (simp add: IgnoreUnknownTypeFlag_def)
  show ?thesis
    unfolding eq bit_exp_iff by auto
qed

lemma flag_set_iff: "b AND IgnoreUnknownTypeFlag = IgnoreUnknownTypeFlag \<longleftrightarrow> bit b 7"
proof
  assume "b AND IgnoreUnknownTypeFlag = IgnoreUnknownTypeFlag"
  then have "bit (b AND IgnoreUnknownTypeFlag) 7" by (simp add: flag_bit)
  then show "bit b 7" by (simp add: bit_and_iff)
next
  assume "bit b 7"
  then show "b AND IgnoreUnknownTypeFlag = IgnoreUnknownTypeFlag"
    by (intro bit_word_eqI) (auto simp: bit_and_iff flag_bit)
qed

lemma unflagged_masked:
  assumes "b AND IgnoreUnknownTypeFlag \<noteq> IgnoreUnknownTypeFlag"
  shows "b AND NOT IgnoreUnknownTypeFlag = b"
proof -
  from assms have "\<not> bit b 7" by (simp add: flag_set_iff)
  then show ?thesis
    by (intro bit_word_eqI) (auto simp: bit_and_iff bit_not_iff flag_bit)
qed

lemma masked_unflagged:
  "(b AND NOT IgnoreUnknownTypeFlag) AND IgnoreUnknownTypeFlag \<noteq> IgnoreUnknownTypeFlag"
  by (simp add: flag_set_iff bit_and_iff bit_not_iff flag_bit)

lemma Apply_unrecognized:
  assumes "Data log = b # rest" and "\<not> recognized (masked_type b)"
  shows "Apply ss cd c log =
           (if flagged b
            then (Return RNil, Printf (WarnIgnoringUnknownMessageType (masked_type b)) c)
            else (Panic (PanicFailedToApply (Data log)), c))"
proof (cases "flagged b")
  case True
  with assms show ?thesis
    by (simp add: Apply_def Let_def flagged_def masked_type_def recognized_def)
next
  case False
  then have "masked_type b = b"
    by (simp add: flagged_def masked_type_def unflagged_masked)
  with assms False show ?thesis
    by (simp add: Apply_def Let_def flagged_def recognized_def)
qed

lemma Apply_recognized:
  assumes "Data log = b # rest" and "recognized (masked_type b)"
  shows "Apply ss cd c log =
           (if masked_type b = RegisterRequestType then decodeRegister ss cd c rest (Index log)
            else if masked_type b = DeregisterRequestType then
              applyDeregister ss cd c rest (Index log)
            else if masked_type b = KVSRequestType then applyKVSOperation ss cd c rest (Index log)
            else if masked_type b = SessionRequestType then
              applySessionOperation ss cd c rest (Index log)
            else if masked_type b = ACLRequestType then applyACLOperation ss cd c rest (Index log)
            else applyTombstoneOperation ss cd c rest (Index log))"
proof (cases "flagged b")
  case True
  with assms show ?thesis
    by (auto simp: Apply_def Let_def flagged_def masked_type_def recognized_def)
next
  case False
  then have "masked_type b = b"
    by (simp add: flagged_def masked_type_def unflagged_masked)
  with assms False show ?thesis
    by (auto simp: Apply_def Let_def flagged_def recognized_def)
qed

lemmas message_type_defs =
  RegisterRequestType_def DeregisterRequestType_def KVSRequestType_def SessionRequestType_def
  ACLRequestType_def TombstoneRequestType_def IgnoreUnknownTypeFlag_def

lemmas op_defs =
  structs_KVSSet_def structs_KVSDelete_def structs_KVSDeleteCAS_def structs_KVSDeleteTree_def
  structs_KVSCAS_def structs_KVSLock_def structs_KVSUnlock_def

text \<open>
  C7. A command whose message type (the type byte without the ignore-if-unknown bit) is
  not one of the six recognised types: when the bit is set on the type byte,
  \<^verbatim>\<open>Apply\<close> logs a warning, skips the command and returns nil; when the bit is not
  set, \<^verbatim>\<open>Apply\<close> panics. In neither case is the store changed.
\<close>

theorem Apply_unknown_type:
  assumes "Data log = b # rest" and "\<not> recognized (b AND NOT IgnoreUnknownTypeFlag)"
  shows "(if b AND IgnoreUnknownTypeFlag = IgnoreUnknownTypeFlag
          then fst (Apply ss cd c log) = Return RNil
             \<and> logger (snd (Apply ss cd c log)) =
                 logger c @ [WarnIgnoringUnknownMessageType (b AND NOT IgnoreUnknownTypeFlag)]
          else fst (Apply ss cd c log) = Panic (PanicFailedToApply (Data log)))
         \<and> state (snd (Apply ss cd c log)) = state c"
  using Apply_unrecognized [of log b rest ss cd c] assms
  by (simp add: masked_type_def flagged_def Printf_def)

theorem Apply_unknown_type_witness:
  "Data (unknown_log 192) = 192 # [1, 2, 3]
   \<and> \<not> recognized (192 AND NOT IgnoreUnknownTypeFlag)
   \<and> 192 AND IgnoreUnknownTypeFlag = IgnoreUnknownTypeFlag
   \<and> fst (Apply consul_store failing_codec NewFSM (unknown_log 192)) = Return RNil
   \<and> logger (snd (Apply consul_store failing_codec NewFSM (unknown_log 192))) =
       [WarnIgnoringUnknownMessageType 64]
   \<and> state (snd (Apply consul_store failing_codec NewFSM (unknown_log 192))) = state NewFSM
   \<and> Data (unknown_log 64) = 64 # [1, 2, 3]
   \<and> \<not> recognized (64 AND NOT IgnoreUnknownTypeFlag)
   \<and> 64 AND IgnoreUnknownTypeFlag \<noteq> IgnoreUnknownTypeFlag
   \<and> fst (Apply consul_store failing_codec NewFSM (unknown_log 64)) =
       Panic (PanicFailedToApply [64, 1, 2, 3])
   \<and> state (snd (Apply consul_store failing_codec NewFSM (unknown_log 64))) = state NewFSM"
proof -
  have d: "Data (unknown_log 192) = 192 # [1, 2, 3]" "Data (unknown_log 64) = 64 # [1, 2, 3]"
    by (simp_all add: unknown_log_def)
  have m: "(192 :: byte) AND NOT IgnoreUnknownTypeFlag = 64"
    "(64 :: byte) AND NOT IgnoreUnknownTypeFlag = 64"
    by (simp_all add: IgnoreUnknownTypeFlag_def)
  have r: "\<not> recognized (192 AND NOT IgnoreUnknownTypeFlag)"
    "\<not> recognized (64 AND NOT IgnoreUnknownTypeFlag)"
    unfolding m
    by (simp_all add: recognized_def RegisterRequestType_def DeregisterRequestType_def
        KVSRequestType_def SessionRequestType_def ACLRequestType_def TombstoneRequestType_def)
  have f: "(192 :: byte) AND IgnoreUnknownTypeFlag = IgnoreUnknownTypeFlag"
    "(64 :: byte) AND IgnoreUnknownTypeFlag \<noteq> IgnoreUnknownTypeFlag"
    by (simp_all add: IgnoreUnknownTypeFlag_def)
  show ?thesis
    using Apply_unknown_type [OF d(1) r(1), of consul_store failing_codec NewFSM]
      Apply_unknown_type [OF d(2) r(2), of consul_store failing_codec NewFSM] d r f
    by (simp add: m NewFSM_def)
qed


text \<open>
  C10. A command whose type byte has the ignore-if-unknown bit set while the remaining
  bits are a recognised message type is processed exactly as the same command with the
  bit cleared: the bit is masked off before the dispatch, and the command is applied.
\<close>

theorem Apply_flag_on_known_type:
  assumes "b AND IgnoreUnknownTypeFlag = IgnoreUnknownTypeFlag"
    and "recognized (b AND NOT IgnoreUnknownTypeFlag)"
  shows "Apply ss cd c \<lparr>Index = i, Data = b # rest\<rparr> =
         Apply ss cd c \<lparr>Index = i, Data = (b AND NOT IgnoreUnknownTypeFlag) # rest\<rparr>"
proof -
  let ?m = "b AND NOT IgnoreUnknownTypeFlag"
  have m: "masked_type ?m = masked_type b"
    by (simp add: masked_type_def)
  have r: "recognized (masked_type b)" "recognized (masked_type ?m)"
    using assms(2) by (simp_all add: masked_type_def)
  show ?thesis
    using Apply_recognized [of "\<lparr>Index = i, Data = b # rest\<rparr>" b rest ss cd c, OF _ r(1)]
          Apply_recognized [of "\<lparr>Index = i, Data = ?m # rest\<rparr>" ?m rest ss cd c, OF _ r(2)]
    by (simp add: m)
qed

theorem Apply_flag_on_known_type_witness:
  "130 AND IgnoreUnknownTypeFlag = IgnoreUnknownTypeFlag
   \<and> recognized (130 AND NOT IgnoreUnknownTypeFlag)
   \<and> Apply consul_store (kvs_codec set_request) NewFSM \<lparr>raft_Log.Index = 1, Data = [130]\<rparr> =
       Apply consul_store (kvs_codec set_request) NewFSM
         \<lparr>raft_Log.Index = 1, Data = [KVSRequestType]\<rparr>
   \<and> fst (Apply consul_store (kvs_codec set_request) NewFSM \<lparr>raft_Log.Index = 1, Data = [130]\<rparr>)
       = Return RNil
   \<and> KVSGet (state (snd (Apply consul_store (kvs_codec set_request) NewFSM
                            \<lparr>raft_Log.Index = 1, Data = [130]\<rparr>))) ''/test/path''
       = Some ((test_DirEntry ''/test/path'' [116])\<lparr>CreateIndex := 1, ModifyIndex := 1\<rparr>)"
proof -
  have m: "(130 :: byte) AND NOT IgnoreUnknownTypeFlag = KVSRequestType"
    by (simp add: IgnoreUnknownTypeFlag_def KVSRequestType_def)
  have f: "(130 :: byte) AND IgnoreUnknownTypeFlag = IgnoreUnknownTypeFlag"
    by (simp add: IgnoreUnknownTypeFlag_def)
  have r: "recognized (130 AND NOT IgnoreUnknownTypeFlag)"
    unfolding m by (simp add: recognized_def)
  have k: "KVSRequestType AND IgnoreUnknownTypeFlag \<noteq> IgnoreUnknownTypeFlag"
    by (simp add: IgnoreUnknownTypeFlag_def KVSRequestType_def)
  have a: "Apply consul_store (kvs_codec set_request) NewFSM
             \<lparr>raft_Log.Index = 1, Data = [KVSRequestType]\<rparr>
           = (Return RNil, NewFSM\<lparr>state := kvsSetTxn 1 (test_DirEntry ''/test/path'' [116])
                                           NewStateStore\<rparr>)"
    by (simp add: Apply_def Let_def message_type_defs applyKVSOperation_def kvs_codec_def
        failing_codec_def set_request_def return_err_def consul_store_def KVSSet_def NewFSM_def)
  have g: "KVSGet (kvsSetTxn 1 (test_DirEntry ''/test/path'' [116]) NewStateStore) ''/test/path''
           = Some ((test_DirEntry ''/test/path'' [116])\<lparr>CreateIndex := 1, ModifyIndex := 1\<rparr>)"
    by code_simp
  show ?thesis
    using Apply_flag_on_known_type [OF f r, of consul_store "kvs_codec set_request" NewFSM 1 "[]"]
      f r a g
    by (simp add: m)
qed

text \<open>
  C8. A Deregister command (with or without the ignore-if-unknown bit on its type
  byte) performs one delete on the store, chosen by the request:
  \<^verbatim>\<open>DeleteService\<close> when \<open>ServiceID\<close> is non-empty (whatever \<open>CheckID\<close> is),
  otherwise \<^verbatim>\<open>DeleteCheck\<close> when \<open>CheckID\<close> is non-empty, otherwise
  \<^verbatim>\<open>DeleteNode\<close>. When the delete succeeds \<^verbatim>\<open>Apply\<close> returns nil and the machine
  holds the store the delete produced; when it fails \<^verbatim>\<open>Apply\<close> returns the store's
  error and the store is unchanged.
\<close>

theorem Apply_Deregister_dispatch:
  assumes "Data log = b # rest"
    and "b AND NOT IgnoreUnknownTypeFlag = DeregisterRequestType"
    and "decode_DeregisterRequest cd rest = Inr req"
  shows "(case deregister_delete ss (raft_Log.Index log) req (state c) of
            Inl err \<Rightarrow> fst (Apply ss cd c log) = Return (RError err)
                     \<and> state (snd (Apply ss cd c log)) = state c
          | Inr s' \<Rightarrow> fst (Apply ss cd c log) = Return RNil
                     \<and> state (snd (Apply ss cd c log)) = s')"
proof -
  have "masked_type b = DeregisterRequestType"
    using assms(2) by (simp add: masked_type_def)
  then have "Apply ss cd c log = applyDeregister ss cd c rest (raft_Log.Index log)"
    using Apply_recognized [of log b rest ss cd c] assms(1)
    by (simp add: recognized_def RegisterRequestType_def DeregisterRequestType_def)
  then show ?thesis
    using assms(3)
    by (simp add: applyDeregister_def deregister_delete_def Printf_def split: sum.splits)
qed

theorem Apply_Deregister_dispatch_witness:
  "Data dereg_log = DeregisterRequestType # [7]
   \<and> DeregisterRequestType AND NOT IgnoreUnknownTypeFlag = DeregisterRequestType
   \<and> decode_DeregisterRequest (deregister_codec dereg_request) [7] = Inr dereg_request
   \<and> DeregisterRequest.ServiceID dereg_request = ''db''
   \<and> DeregisterRequest.CheckID dereg_request = ''db''
   \<and> fst (Apply consul_store (deregister_codec dereg_request) dereg_FSM dereg_log) = Return RNil
   \<and> DeleteService 2 ''foo'' ''db'' dereg_store
       = Inr (state (snd (Apply consul_store (deregister_codec dereg_request) dereg_FSM dereg_log)))
   \<and> fst (Apply broken_store (deregister_codec dereg_request) dereg_FSM dereg_log)
       = Return (RError (ErrStore ''failed''))
   \<and> state (snd (Apply broken_store (deregister_codec dereg_request) dereg_FSM dereg_log))
       = dereg_store"
proof -
  have d: "Data dereg_log = DeregisterRequestType # [7]"
    by (simp add: dereg_log_def)
  have m: "DeregisterRequestType AND NOT IgnoreUnknownTypeFlag = DeregisterRequestType"
    by (simp add: message_type_defs)
  have c: "decode_DeregisterRequest (deregister_codec dereg_request) [7] = Inr dereg_request"
    by (simp add: deregister_codec_def failing_codec_def)
  have r: "DeregisterRequest.ServiceID dereg_request = ''db''"
    "DeregisterRequest.CheckID dereg_request = ''db''"
    "DeregisterRequest.Node dereg_request = ''foo''"
    by (simp_all add: dereg_request_def)
  have st: "state dereg_FSM = dereg_store"
    by (simp add: dereg_FSM_def)
  have s: "deregister_delete consul_store (raft_Log.Index dereg_log) dereg_request dereg_store
           = Inr (deleteServiceTxn 2 ''foo'' ''db'' dereg_store)"
    by (simp add: deregister_delete_def r consul_store_def DeleteService_def dereg_log_def)
  have b: "deregister_delete broken_store (raft_Log.Index dereg_log) dereg_request dereg_store
           = Inl (ErrStore ''failed'')"
    by (simp add: deregister_delete_def r broken_store_def consul_store_def)
  show ?thesis
    using Apply_Deregister_dispatch [OF d m c, of consul_store dereg_FSM]
      Apply_Deregister_dispatch [OF d m c, of broken_store dereg_FSM] d m c r
    by (simp add: st s b DeleteService_def)
qed

section \<open>Compare-and-swap, locks and the reaping of tombstones\<close>

text \<open>
  C3. \<^verbatim>\<open>KVSSetCAS\<close> reports \<open>True\<close> if and only if either the request's
  \<open>ModifyIndex\<close> is 0 and the key has no live entry, or the key has a live entry whose
  \<open>ModifyIndex\<close> is the request's. When it reports \<open>False\<close> the store is unchanged
  (the entry, its indexes and the row of the K/V table with it), and it is never an
  error: the arm of \<^verbatim>\<open>Apply\<close> hands the bit to the log caller.
\<close>

theorem KVSSetCAS_ok_iff:
  "\<exists>ok s'. KVSSetCAS idx entry s = Inr (ok, s')
     \<and> ok = ((ModifyIndex entry = 0 \<and> KVSGet s (DirEntry.Key entry) = None)
             \<or> (\<exists>stored. KVSGet s (DirEntry.Key entry) = Some stored
                          \<and> ModifyIndex stored = ModifyIndex entry))
     \<and> s' = (if ok then kvsSetTxn idx entry s else s)
     \<and> (\<forall>cd c buf req.
           decode_KVSRequest cd buf = Inr req \<and> KVSRequest.Op req = structs_KVSCAS
             \<and> DirEnt req = entry \<and> state c = s
           \<longrightarrow> applyKVSOperation consul_store cd c buf idx = (Return (RBool ok), c\<lparr>state := s'\<rparr>))"
proof (cases "KVSGet s (DirEntry.Key entry)")
  case None
  then show ?thesis
    by (auto simp: KVSSetCAS_def KVSGet_def applyKVSOperation_def return_act_def consul_store_def
          structs_KVSCAS_def structs_KVSSet_def structs_KVSDelete_def structs_KVSDeleteCAS_def
          structs_KVSDeleteTree_def)
next
  case (Some stored)
  then show ?thesis
    by (auto simp: KVSSetCAS_def KVSGet_def applyKVSOperation_def return_act_def consul_store_def
          structs_KVSCAS_def structs_KVSSet_def structs_KVSDelete_def structs_KVSDeleteCAS_def
          structs_KVSDeleteTree_def)
qed

theorem KVSSetCAS_ok_iff_witness:
  "KVSGet cas_store ''foo'' = Some ((test_DirEntry ''foo'' [97])\<lparr>CreateIndex := 1, ModifyIndex := 1\<rparr>)
   \<and> KVSSetCAS 2 (DirEnt (cas_request 0)) cas_store = Inr (False, cas_store)
   \<and> applyKVSOperation consul_store (kvs_codec (cas_request 0)) cas_FSM [] 2
       = (Return (RBool False), cas_FSM)
   \<and> fst (applyKVSOperation consul_store (kvs_codec (cas_request 1)) cas_FSM [] 2)
       = Return (RBool True)
   \<and> KVSGet (state (snd (applyKVSOperation consul_store (kvs_codec (cas_request 1)) cas_FSM [] 2)))
        ''foo''
       = Some ((test_DirEntry ''foo'' [98])\<lparr>CreateIndex := 1, ModifyIndex := 2\<rparr>)"
proof -
  have g: "KVSGet cas_store ''foo''
           = Some ((test_DirEntry ''foo'' [97])\<lparr>CreateIndex := 1, ModifyIndex := 1\<rparr>)"
    by code_simp
  have k: "DirEntry.Key (DirEnt (cas_request cidx)) = ''foo''"
    "ModifyIndex (DirEnt (cas_request cidx)) = cidx" for cidx
    by (simp_all add: cas_request_def test_DirEntry_def)
  have d: "decode_KVSRequest (kvs_codec (cas_request cidx)) [] = Inr (cas_request cidx)"
    "KVSRequest.Op (cas_request cidx) = structs_KVSCAS" for cidx
    by (simp_all add: kvs_codec_def failing_codec_def cas_request_def)
  have s: "state cas_FSM = cas_store" "cas_FSM\<lparr>state := cas_store\<rparr> = cas_FSM"
    by (simp_all add: cas_FSM_def)
  have v: "KVSGet (kvsSetTxn 2 (DirEnt (cas_request 1)) cas_store) ''foo''
           = Some ((test_DirEntry ''foo'' [98])\<lparr>CreateIndex := 1, ModifyIndex := 2\<rparr>)"
    by code_simp
  from KVSSetCAS_ok_iff [of 2 "DirEnt (cas_request 0)" cas_store]
  have f0: "KVSSetCAS 2 (DirEnt (cas_request 0)) cas_store = Inr (False, cas_store)"
    "applyKVSOperation consul_store (kvs_codec (cas_request 0)) cas_FSM [] 2
       = (Return (RBool False), cas_FSM)"
    using d s by (auto simp: k g)
  from KVSSetCAS_ok_iff [of 2 "DirEnt (cas_request 1)" cas_store]
  have f1: "applyKVSOperation consul_store (kvs_codec (cas_request 1)) cas_FSM [] 2
       = (Return (RBool True), cas_FSM\<lparr>state := kvsSetTxn 2 (DirEnt (cas_request 1)) cas_store\<rparr>)"
    using d s by (auto simp: k g)
  show ?thesis
    using g f0 f1 v by simp
qed


text \<open>
  C5. With a session that exists, \<^verbatim>\<open>KVSLock\<close> on a key that is not held writes the
  entry with the session as its holder and \<open>LockIndex\<close> one higher (1 on a new key);
  by the session that holds the key already it writes the entry with the same
  \<open>LockIndex\<close>; both report \<open>True\<close>. On a key held by another session it reports
  \<open>False\<close> and changes nothing. \<^verbatim>\<open>KVSUnlock\<close> by the holder, the session that the
  entry names, writes the entry with no holder and the same \<open>LockIndex\<close> and reports
  \<open>True\<close>; a request that is not by the holder (another session or none, a key that is
  not held, a key without an entry) reports \<open>False\<close> and changes nothing.
\<close>

theorem KVSLock_KVSUnlock:
  "(DirEntry.Session entry \<noteq> [] \<and> tbl_first (sessions s) (DirEntry.Session entry) \<noteq> None \<longrightarrow>
      (case KVSGet s (DirEntry.Key entry) of
         None \<Rightarrow>
           (\<exists>s'. KVSLock idx entry s = Inr (True, s')
              \<and> KVSGet s' (DirEntry.Key entry) =
                  Some (entry\<lparr>CreateIndex := idx, ModifyIndex := idx, LockIndex := 1\<rparr>))
       | Some existing \<Rightarrow>
           if DirEntry.Session existing = DirEntry.Session entry then
             (\<exists>s'. KVSLock idx entry s = Inr (True, s')
                \<and> KVSGet s' (DirEntry.Key entry) =
                    Some (entry\<lparr>CreateIndex := CreateIndex existing, ModifyIndex := idx,
                               LockIndex := LockIndex existing\<rparr>))
           else if DirEntry.Session existing = [] then
             (\<exists>s'. KVSLock idx entry s = Inr (True, s')
                \<and> KVSGet s' (DirEntry.Key entry) =
                    Some (entry\<lparr>CreateIndex := CreateIndex existing, ModifyIndex := idx,
                               LockIndex := LockIndex existing + 1\<rparr>))
           else KVSLock idx entry s = Inr (False, s)))
   \<and> (case KVSGet s (DirEntry.Key entry) of
         None \<Rightarrow> KVSUnlock idx entry s = Inr (False, s)
       | Some existing \<Rightarrow>
           if DirEntry.Session entry \<noteq> [] \<and> DirEntry.Session existing = DirEntry.Session entry
           then
             (\<exists>s'. KVSUnlock idx entry s = Inr (True, s')
                \<and> KVSGet s' (DirEntry.Key entry) =
                    Some (entry\<lparr>CreateIndex := CreateIndex existing, ModifyIndex := idx,
                               LockIndex := LockIndex existing, DirEntry.Session := []\<rparr>))
           else KVSUnlock idx entry s = Inr (False, s))"
  by (auto simp: KVSLock_def KVSUnlock_def KVSGet_kvsSetTxn KVSGet_def[symmetric]
           split: option.splits)

theorem KVSLock_KVSUnlock_witness:
  "DirEntry.Session lock_entry \<noteq> []
   \<and> tbl_first (sessions lock_store) (DirEntry.Session lock_entry) \<noteq> None
   \<and> KVSGet lock_store (DirEntry.Key lock_entry) = None
   \<and> (\<exists>s'. KVSLock 3 lock_entry lock_store = Inr (True, s')
         \<and> KVSGet s' (DirEntry.Key lock_entry) =
             Some (lock_entry\<lparr>CreateIndex := 3, ModifyIndex := 3, LockIndex := 1\<rparr>))
   \<and> KVSUnlock 3 lock_entry lock_store = Inr (False, lock_store)
   \<and> (\<exists>s'. KVSLock 4 lock_entry locked_store = Inr (True, s')
         \<and> KVSGet s' (DirEntry.Key lock_entry) =
             Some (lock_entry\<lparr>CreateIndex := 3, ModifyIndex := 4, LockIndex := 1\<rparr>))
   \<and> (\<exists>s'. KVSUnlock 4 lock_entry locked_store = Inr (True, s')
         \<and> KVSGet s' (DirEntry.Key lock_entry) =
             Some (lock_entry\<lparr>CreateIndex := 3, ModifyIndex := 4, LockIndex := 1,
                              DirEntry.Session := []\<rparr>))
   \<and> KVSUnlock 4 (lock_entry\<lparr>DirEntry.Session := ''other''\<rparr>) locked_store
       = Inr (False, locked_store)
   \<and> KVSUnlock 4 (lock_entry\<lparr>DirEntry.Session := []\<rparr>) locked_store
       = Inr (False, locked_store)
   \<and> KVSGet cas_store ''foo''
       = Some ((test_DirEntry ''foo'' [97])\<lparr>CreateIndex := 1, ModifyIndex := 1\<rparr>)
   \<and> KVSUnlock 4 (test_DirEntry ''foo'' [117]) cas_store = Inr (False, cas_store)"
proof -
  have h: "DirEntry.Session lock_entry \<noteq> []"
    "tbl_first (sessions lock_store) (DirEntry.Session lock_entry) \<noteq> None"
    "KVSGet lock_store (DirEntry.Key lock_entry) = None"
    by code_simp+
  have l: "tbl_first (sessions locked_store) (DirEntry.Session lock_entry) \<noteq> None"
    "KVSGet locked_store (DirEntry.Key lock_entry)
       = Some (lock_entry\<lparr>CreateIndex := 3, ModifyIndex := 3, LockIndex := 1\<rparr>)"
    by code_simp+
  have o: "DirEntry.Key (lock_entry\<lparr>DirEntry.Session := ''other''\<rparr>) = DirEntry.Key lock_entry"
    "DirEntry.Session lock_entry \<noteq> ''other''"
    by code_simp+
  have u: "KVSGet cas_store ''foo''
             = Some ((test_DirEntry ''foo'' [97])\<lparr>CreateIndex := 1, ModifyIndex := 1\<rparr>)"
    "DirEntry.Key (test_DirEntry ''foo'' [117]) = ''foo''"
    "DirEntry.Session (test_DirEntry ''foo'' [117]) = []"
    by code_simp+
  show ?thesis
    using KVSLock_KVSUnlock [of lock_entry lock_store 3]
      KVSLock_KVSUnlock [of lock_entry locked_store 4]
      KVSLock_KVSUnlock [of "lock_entry\<lparr>DirEntry.Session := ''other''\<rparr>" locked_store 4]
      KVSLock_KVSUnlock [of "lock_entry\<lparr>DirEntry.Session := []\<rparr>" locked_store 4]
      KVSLock_KVSUnlock [of "test_DirEntry ''foo'' [117]" cas_store 4] h l o u
    by simp
qed


text \<open>
  C4. \<^verbatim>\<open>ReapTombstones\<close> removes exactly the tombstones whose index is at most the
  given one and leaves the live entries alone. Afterwards the result index of a prefix
  query is the maximum over the live entries and the remaining tombstones under the
  prefix; it is never larger than before, and it is smaller than before when a reaped
  tombstone under the prefix had an index above that maximum.
\<close>

lemma KVSList_alt:
  "KVSList s prefix =
     (max (max_of (map ModifyIndex (snd (KVSList s prefix))))
          (max_of (map Tombstone.Index (TombstonesUnder s prefix))),
      tbl_rows (filter (\<lambda>row. HasPrefix (fst row) prefix) (kvs s)))"
  by (simp add: KVSList_def Let_def TombstonesUnder_def)

lemma TombstonesUnder_reap:
  "TombstonesUnder (s\<lparr>tombstones := filter (\<lambda>row. \<not> Tombstone.Index (snd row) \<le> ridx) (tombstones s)\<rparr>) prefix
     = filter (\<lambda>t. \<not> Tombstone.Index t \<le> ridx) (TombstonesUnder s prefix)"
  by (simp add: TombstonesUnder_def tbl_rows_def filter_map comp_def conj_commute)

theorem ReapTombstones_reaps:
  "\<exists>s'. ReapTombstones ridx s = Inr s'
     \<and> set (TombstoneDump s') = {t \<in> set (TombstoneDump s). \<not> Tombstone.Index t \<le> ridx}
     \<and> snd (KVSList s' prefix) = snd (KVSList s prefix)
     \<and> fst (KVSList s' prefix) =
         max (max_of (map ModifyIndex (snd (KVSList s prefix))))
             (max_of (map Tombstone.Index
                (filter (\<lambda>t. \<not> Tombstone.Index t \<le> ridx) (TombstonesUnder s prefix))))
     \<and> fst (KVSList s' prefix) \<le> fst (KVSList s prefix)
     \<and> ((\<exists>t \<in> set (TombstonesUnder s prefix). Tombstone.Index t \<le> ridx
            \<and> fst (KVSList s' prefix) < Tombstone.Index t)
         \<longrightarrow> fst (KVSList s' prefix) < fst (KVSList s prefix))"
proof -
  let ?s' = "s\<lparr>tombstones := filter (\<lambda>row. \<not> Tombstone.Index (snd row) \<le> ridx) (tombstones s)\<rparr>"
  let ?live = "snd (KVSList s prefix)"
  let ?stones = "TombstonesUnder s prefix"
  let ?kept = "filter (\<lambda>t. \<not> Tombstone.Index t \<le> ridx) ?stones"
  have r: "ReapTombstones ridx s = Inr ?s'"
    by (simp add: ReapTombstones_def)
  have d: "set (TombstoneDump ?s') = {t \<in> set (TombstoneDump s). \<not> Tombstone.Index t \<le> ridx}"
    by (auto simp: TombstoneDump_def tbl_rows_def)
  have l: "snd (KVSList ?s' prefix) = ?live"
    by (simp add: KVSList_def Let_def)
  have i: "fst (KVSList ?s' prefix) =
             max (max_of (map ModifyIndex ?live)) (max_of (map Tombstone.Index ?kept))"
    by (subst KVSList_alt) (simp add: l TombstonesUnder_reap)
  have b: "fst (KVSList s prefix) =
             max (max_of (map ModifyIndex ?live)) (max_of (map Tombstone.Index ?stones))"
    by (subst KVSList_alt) simp
  have m: "max_of (map Tombstone.Index ?kept) \<le> max_of (map Tombstone.Index ?stones)"
    by (rule max_of_mono) auto
  have le: "fst (KVSList ?s' prefix) \<le> fst (KVSList s prefix)"
    unfolding i b using m by (simp add: max.coboundedI2)
  have lt: "fst (KVSList ?s' prefix) < fst (KVSList s prefix)"
    if "t \<in> set ?stones" and "fst (KVSList ?s' prefix) < Tombstone.Index t" for t
  proof -
    have "Tombstone.Index t \<le> max_of (map Tombstone.Index ?stones)"
      using that(1) by (intro max_of_ge) simp
    then have "Tombstone.Index t \<le> fst (KVSList s prefix)"
      unfolding b by (simp add: max.coboundedI2)
    with that(2) show ?thesis by simp
  qed
  show ?thesis
    using r d l i le lt by blast
qed

theorem ReapTombstones_reaps_witness:
  "fst (KVSList reap_store ''foo/'') = 7
   \<and> (\<exists>t \<in> set (TombstonesUnder reap_store ''foo/''). Tombstone.Index t \<le> 7 \<and> 5 < Tombstone.Index t)
   \<and> (\<exists>s'. ReapTombstones 7 reap_store = Inr s'
         \<and> TombstoneDump s' = []
         \<and> fst (KVSList s' ''foo/'') = 5
         \<and> fst (KVSList s' ''foo/'') < fst (KVSList reap_store ''foo/''))"
proof -
  have b: "fst (KVSList reap_store ''foo/'') = 7"
    by code_simp
  have t: "\<lparr>Tombstone.Key = ''foo/moo'', Tombstone.Index = 7\<rparr>
             \<in> set (TombstonesUnder reap_store ''foo/'')"
    by code_simp
  have a: "max (max_of (map ModifyIndex (snd (KVSList reap_store ''foo/''))))
             (max_of (map Tombstone.Index
                (filter (\<lambda>t. \<not> Tombstone.Index t \<le> 7) (TombstonesUnder reap_store ''foo/'')))) = 5"
    by code_simp
  have e: "{t \<in> set (TombstoneDump reap_store). \<not> Tombstone.Index t \<le> 7} = {}"
    by code_simp
  from ReapTombstones_reaps [of 7 reap_store "''foo/''"] obtain s' where
    s': "ReapTombstones 7 reap_store = Inr s'"
      "set (TombstoneDump s') = {t \<in> set (TombstoneDump reap_store). \<not> Tombstone.Index t \<le> 7}"
      "fst (KVSList s' ''foo/'') =
         max (max_of (map ModifyIndex (snd (KVSList reap_store ''foo/''))))
             (max_of (map Tombstone.Index
                (filter (\<lambda>t. \<not> Tombstone.Index t \<le> 7) (TombstonesUnder reap_store ''foo/''))))"
      "(\<exists>t \<in> set (TombstonesUnder reap_store ''foo/''). Tombstone.Index t \<le> 7
            \<and> fst (KVSList s' ''foo/'') < Tombstone.Index t)
         \<longrightarrow> fst (KVSList s' ''foo/'') < fst (KVSList reap_store ''foo/'')"
    by blast
  have i: "fst (KVSList s' ''foo/'') = 5"
    using s'(3) a by simp
  have x: "\<exists>t \<in> set (TombstonesUnder reap_store ''foo/''). Tombstone.Index t \<le> 7 \<and> 5 < Tombstone.Index t"
    using t by (intro bexI [of _ "\<lparr>Tombstone.Key = ''foo/moo'', Tombstone.Index = 7\<rparr>"]) simp_all
  then have "fst (KVSList s' ''foo/'') < fst (KVSList reap_store ''foo/'')"
    using s'(4) i by simp
  moreover have "TombstoneDump s' = []"
    using s'(2) e by simp
  ultimately show ?thesis
    using b x s'(1) i by blast
qed


section \<open>Deletes of what does not exist\<close>

text \<open>
  C6. Each delete (\<^verbatim>\<open>DeleteNode\<close>, \<^verbatim>\<open>DeleteService\<close>, \<^verbatim>\<open>DeleteCheck\<close>,
  \<^verbatim>\<open>KVSDelete\<close>, \<^verbatim>\<open>KVSDeleteTree\<close>, \<^verbatim>\<open>SessionDestroy\<close>,
  \<^verbatim>\<open>ACLDelete\<close>) succeeds on a target that does not exist and returns the store as
  it was, the index rows with it; and the same delete run again on the store that the
  first run produced, at any log index, changes nothing more.
\<close>

theorem delete_idempotent:
  "(GetNode s node = None \<longrightarrow> DeleteNode idx node s = Inr s)
   \<and> then_do (DeleteNode idx node s) (DeleteNode idx' node) = DeleteNode idx node s
   \<and> (tbl_first (services s) (node, serviceID) = None \<longrightarrow> DeleteService idx node serviceID s = Inr s)
   \<and> then_do (DeleteService idx node serviceID s) (DeleteService idx' node serviceID)
       = DeleteService idx node serviceID s
   \<and> (tbl_first (checks s) (node, checkID) = None \<longrightarrow> DeleteCheck idx node checkID s = Inr s)
   \<and> then_do (DeleteCheck idx node checkID s) (DeleteCheck idx' node checkID)
       = DeleteCheck idx node checkID s
   \<and> (KVSGet s key = None \<longrightarrow> KVSDelete idx key s = Inr s)
   \<and> then_do (KVSDelete idx key s) (KVSDelete idx' key) = KVSDelete idx key s
   \<and> (snd (KVSList s prefix) = [] \<longrightarrow> KVSDeleteTree idx prefix s = Inr s)
   \<and> then_do (KVSDeleteTree idx prefix s) (KVSDeleteTree idx' prefix) = KVSDeleteTree idx prefix s
   \<and> (snd (SessionGet s sessionID) = None \<longrightarrow> SessionDestroy idx sessionID s = Inr s)
   \<and> then_do (SessionDestroy idx sessionID s) (SessionDestroy idx' sessionID)
       = SessionDestroy idx sessionID s
   \<and> (ACLGet s aclID = None \<longrightarrow> ACLDelete idx aclID s = Inr s)
   \<and> then_do (ACLDelete idx aclID s) (ACLDelete idx' aclID) = ACLDelete idx aclID s"
proof -
  have n: "then_do (DeleteNode idx node s) (DeleteNode idx' node) = DeleteNode idx node s"
    by (simp add: then_do_def DeleteNode_def deleteNodeTxn_twice)
  have sv: "then_do (DeleteService idx node serviceID s) (DeleteService idx' node serviceID)
       = DeleteService idx node serviceID s"
    by (simp add: then_do_def DeleteService_def deleteServiceTxn_twice)
  have ch: "then_do (DeleteCheck idx node checkID s) (DeleteCheck idx' node checkID)
       = DeleteCheck idx node checkID s"
    by (simp add: then_do_def DeleteCheck_def deleteCheckTxn_twice)
  have kv: "then_do (KVSDelete idx key s) (KVSDelete idx' key) = KVSDelete idx key s"
    by (simp add: then_do_def KVSDelete_def kvsDeleteTxn_twice)
  have tr0: "snd (KVSList s prefix) = [] \<longrightarrow> KVSDeleteTree idx prefix s = Inr s"
    by (simp add: KVSDeleteTree_keys tree_keys_KVSList [symmetric])
  have tr: "then_do (KVSDeleteTree idx prefix s) (KVSDeleteTree idx' prefix)
       = KVSDeleteTree idx prefix s"
    by (simp add: then_do_def KVSDeleteTree_keys tree_keys_after)
  have se: "then_do (SessionDestroy idx sessionID s) (SessionDestroy idx' sessionID)
       = SessionDestroy idx sessionID s"
    by (simp add: then_do_def SessionDestroy_def deleteSessionTxn_twice)
  have ac: "then_do (ACLDelete idx aclID s) (ACLDelete idx' aclID) = ACLDelete idx aclID s"
    by (simp add: then_do_def ACLDelete_def indexUpdate_def tbl_first_delete split: option.splits)
  show ?thesis
    using n sv ch kv tr0 tr se ac
    by (simp add: GetNode_def DeleteNode_def deleteNodeTxn_absent DeleteService_def
          deleteServiceTxn_absent DeleteCheck_def deleteCheckTxn_absent KVSGet_def KVSDelete_def
          kvsDeleteTxn_absent SessionGet_def SessionDestroy_def deleteSessionTxn_absent
          ACLGet_def ACLDelete_def)
qed

theorem delete_idempotent_witness:
  "GetNode dn_store ''node1'' = None
   \<and> DeleteNode 4 ''node1'' dn_store = Inr dn_store
   \<and> IndexRow dn_store ''nodes'' = 3
   \<and> tbl_first (services dn_store) (''node1'', ''service1'') = None
   \<and> DeleteService 4 ''node1'' ''service1'' dn_store = Inr dn_store
   \<and> tbl_first (checks dn_store) (''node1'', ''check1'') = None
   \<and> DeleteCheck 4 ''node1'' ''check1'' dn_store = Inr dn_store
   \<and> KVSGet dn_store ''foo'' = None
   \<and> KVSDelete 4 ''foo'' dn_store = Inr dn_store
   \<and> snd (KVSList dn_store ''foo'') = []
   \<and> KVSDeleteTree 4 ''foo'' dn_store = Inr dn_store
   \<and> snd (SessionGet dn_store ''nope'') = None
   \<and> SessionDestroy 4 ''nope'' dn_store = Inr dn_store
   \<and> ACLGet dn_store ''nope'' = None
   \<and> ACLDelete 4 ''nope'' dn_store = Inr dn_store"
proof -
  have h: "GetNode dn_store ''node1'' = None"
    "IndexRow dn_store ''nodes'' = 3"
    "tbl_first (services dn_store) (''node1'', ''service1'') = None"
    "tbl_first (checks dn_store) (''node1'', ''check1'') = None"
    "KVSGet dn_store ''foo'' = None"
    "snd (KVSList dn_store ''foo'') = []"
    "snd (SessionGet dn_store ''nope'') = None"
    "ACLGet dn_store ''nope'' = None"
    by code_simp+
  show ?thesis
    using delete_idempotent [of dn_store "''node1''" 4 4 "''service1''" "''check1''" "''foo''"
        "''foo''" "''nope''" "''nope''"] h
    by simp
qed


section \<open>The rows of the index table after a write\<close>

lemma IndexRow_indexUpdate:
  "IndexRow (indexUpdate tbl idx s) tbl' = (if tbl' = tbl then idx else IndexRow s tbl')"
  by (simp add: IndexRow_def indexUpdate_def tbl_first_insert)

lemma IndexRow_fields [simp]:
  "IndexRow (s\<lparr>nodes := n\<rparr>) tbl = IndexRow s tbl"
  "IndexRow (s\<lparr>services := sv\<rparr>) tbl = IndexRow s tbl"
  "IndexRow (s\<lparr>checks := ch\<rparr>) tbl = IndexRow s tbl"
  "IndexRow (s\<lparr>kvs := kv\<rparr>) tbl = IndexRow s tbl"
  "IndexRow (s\<lparr>tombstones := tm\<rparr>) tbl = IndexRow s tbl"
  "IndexRow (s\<lparr>sessions := se\<rparr>) tbl = IndexRow s tbl"
  "IndexRow (s\<lparr>acls := ac\<rparr>) tbl = IndexRow s tbl"
  by (simp_all add: IndexRow_def)

lemma index_written_refl [simp]: "index_written idx s s"
  by (simp add: index_written_def)

lemma index_written_trans [trans]:
  "index_written idx a b \<Longrightarrow> index_written idx b c \<Longrightarrow> index_written idx a c"
  unfolding index_written_def by metis

lemma index_written_row:
  "index_written idx a b \<Longrightarrow> IndexRow a tbl = idx \<Longrightarrow> IndexRow b tbl = idx"
  unfolding index_written_def by metis

lemma index_written_fold:
  assumes "\<And>x s. index_written idx s (f x s)"
  shows "index_written idx s (fold f xs s)"
proof (induction xs arbitrary: s)
  case Nil
  then show ?case by simp
next
  case (Cons x xs)
  show ?case
    using index_written_trans [OF assms [of s x] Cons.IH [of "f x s"]] by simp
qed

lemma index_written_kvsSetTxn: "index_written idx s (kvsSetTxn idx e s)"
  by (simp add: index_written_def kvsSetTxn_def Let_def IndexRow_indexUpdate)

lemma index_written_kvsDeleteTxn: "index_written idx s (kvsDeleteTxn idx k s)"
  by (simp add: index_written_def kvsDeleteTxn_def IndexRow_indexUpdate split: option.splits)

lemma index_written_invalidateLock: "index_written idx s (invalidateLock idx b e s)"
  by (simp add: invalidateLock_def index_written_kvsSetTxn index_written_kvsDeleteTxn)

lemma index_written_deleteSessionTxn: "index_written idx s (deleteSessionTxn idx i s)"
proof (cases "tbl_first (sessions s) i")
  case None
  then show ?thesis by (simp add: deleteSessionTxn_def)
next
  case (Some sess)
  let ?s1 = "indexUpdate ''sessions'' idx (s\<lparr>sessions := tbl_delete i (sessions s)\<rparr>)"
  have "index_written idx s ?s1"
    by (simp add: index_written_def IndexRow_indexUpdate)
  moreover have "index_written idx ?s1 (fold (invalidateLock idx (Behavior sess)) es ?s1)" for es
    by (rule index_written_fold) (rule index_written_invalidateLock)
  ultimately show ?thesis
    using Some by (simp add: deleteSessionTxn_def Let_def index_written_trans)
qed

lemma index_written_deleteCheckTxn: "index_written idx s (deleteCheckTxn idx n c s)"
proof (cases "tbl_first (checks s) (n, c)")
  case None
  then show ?thesis by (simp add: deleteCheckTxn_def)
next
  case (Some hc)
  let ?s1 = "indexUpdate ''checks'' idx (s\<lparr>checks := tbl_delete (n, c) (checks s)\<rparr>)"
  have "index_written idx s ?s1"
    by (simp add: index_written_def IndexRow_indexUpdate)
  moreover have "index_written idx ?s1 (fold (deleteSessionTxn idx) ids ?s1)" for ids
    by (rule index_written_fold) (rule index_written_deleteSessionTxn)
  ultimately show ?thesis
    using Some by (simp add: deleteCheckTxn_def Let_def index_written_trans)
qed

lemma IndexRow_deleteCheckTxn:
  assumes "tbl_first (checks s) (n, c) \<noteq> None"
  shows "IndexRow (deleteCheckTxn idx n c s) ''checks'' = idx"
proof -
  from assms obtain hc where hc: "tbl_first (checks s) (n, c) = Some hc" by auto
  have d: "index_written idx s (fold (deleteSessionTxn idx) ids s)" for ids s
    by (rule index_written_fold) (rule index_written_deleteSessionTxn)
  show ?thesis
    using hc by (simp add: deleteCheckTxn_def Let_def index_written_row [OF d] IndexRow_indexUpdate)
qed

lemma index_written_deleteServiceTxn: "index_written idx s (deleteServiceTxn idx n i s)"
proof (cases "tbl_first (services s) (n, i)")
  case None
  then show ?thesis by (simp add: deleteServiceTxn_def)
next
  case (Some svc)
  have f: "index_written idx s (fold (deleteCheckTxn idx n) cids s)" for cids
    by (rule index_written_fold) (rule index_written_deleteCheckTxn)
  have u: "index_written idx s1 (indexUpdate ''services'' idx (s1\<lparr>services := sv\<rparr>))" for s1 sv
    by (simp add: index_written_def IndexRow_indexUpdate)
  show ?thesis
    using Some index_written_trans [OF f u] by (simp add: deleteServiceTxn_def Let_def)
qed

lemma IndexRow_deleteServiceTxn:
  assumes "tbl_first (services s) (n, i) \<noteq> None"
  shows "IndexRow (deleteServiceTxn idx n i s) ''services'' = idx"
  using assms by (auto simp: deleteServiceTxn_def Let_def IndexRow_indexUpdate)

lemma index_written_deleteNodeTxn: "index_written idx s (deleteNodeTxn idx n s)"
proof (cases "tbl_first (nodes s) n")
  case None
  then show ?thesis by (simp add: deleteNodeTxn_def)
next
  case (Some nd)
  have a: "index_written idx s (fold (deleteServiceTxn idx n) sids s)" for sids s
    by (rule index_written_fold) (rule index_written_deleteServiceTxn)
  have b: "index_written idx s (fold (deleteCheckTxn idx n) cids s)" for cids s
    by (rule index_written_fold) (rule index_written_deleteCheckTxn)
  have c: "index_written idx s (indexUpdate ''nodes'' idx (s\<lparr>nodes := nd'\<rparr>))" for s nd'
    by (simp add: index_written_def IndexRow_indexUpdate)
  have d: "index_written idx s (fold (deleteSessionTxn idx) ids s)" for ids s
    by (rule index_written_fold) (rule index_written_deleteSessionTxn)
  let ?s1 = "fold (deleteServiceTxn idx n)
               (map (snd \<circ> fst) (filter (\<lambda>row. fst (fst row) = n) (services s))) s"
  let ?s2 = "fold (deleteCheckTxn idx n)
               (map (snd \<circ> fst) (filter (\<lambda>row. fst (fst row) = n) (checks ?s1))) ?s1"
  let ?s3 = "indexUpdate ''nodes'' idx (?s2\<lparr>nodes := tbl_delete n (nodes ?s2)\<rparr>)"
  let ?s4 = "fold (deleteSessionTxn idx)
               (map fst (filter (\<lambda>row. Session.Node (snd row) = n) (sessions ?s3))) ?s3"
  have "index_written idx s ?s1" by (rule a)
  also have "index_written idx ?s1 ?s2" by (rule b)
  also have "index_written idx ?s2 ?s3" by (rule c)
  also have "index_written idx ?s3 ?s4" by (rule d)
  finally have "index_written idx s ?s4" .
  moreover have "deleteNodeTxn idx n s = ?s4"
    using Some by (simp add: deleteNodeTxn_def Let_def)
  ultimately show ?thesis by simp
qed

lemma IndexRow_deleteNodeTxn:
  assumes "tbl_first (nodes s) n \<noteq> None"
  shows "IndexRow (deleteNodeTxn idx n s) ''nodes'' = idx"
proof -
  from assms obtain nd where nd: "tbl_first (nodes s) n = Some nd" by auto
  have d: "index_written idx s (fold (deleteSessionTxn idx) ids s)" for ids s
    by (rule index_written_fold) (rule index_written_deleteSessionTxn)
  have "IndexRow (indexUpdate ''nodes'' idx s3) ''nodes'' = idx" for s3
    by (simp add: IndexRow_indexUpdate)
  then show ?thesis
    using nd by (simp add: deleteNodeTxn_def Let_def index_written_row [OF d])
qed

lemma index_written_ensureNodeTxn: "index_written idx s (ensureNodeTxn idx nd s)"
  by (simp add: index_written_def ensureNodeTxn_def Let_def IndexRow_indexUpdate)

lemma IndexRow_ensureNodeTxn: "IndexRow (ensureNodeTxn idx nd s) ''nodes'' = idx"
  by (simp add: ensureNodeTxn_def Let_def IndexRow_indexUpdate)

lemma ensureServiceTxn_rows:
  assumes "ensureServiceTxn idx n svc s = Inr s'"
  shows "index_written idx s s'" and "IndexRow s' ''services'' = idx"
  using assms
  by (auto simp: index_written_def ensureServiceTxn_def Let_def IndexRow_indexUpdate
      split: option.splits)

lemma ensureCheckTxn_rows:
  assumes "ensureCheckTxn idx hc s = Inr s'"
  shows "index_written idx s s'" and "IndexRow s' ''checks'' = idx"
  using assms
  by (auto simp: index_written_def ensureCheckTxn_def Let_def IndexRow_indexUpdate
      split: option.splits if_splits)

lemma ensureChecksTxn_rows:
  assumes "ensureChecksTxn idx hcs s = Inr s'"
  shows "index_written idx s s'"
  using assms
proof (induction hcs arbitrary: s)
  case Nil
  then show ?case by simp
next
  case (Cons hc hcs)
  then obtain s1 where s1: "ensureCheckTxn idx hc s = Inr s1" "ensureChecksTxn idx hcs s1 = Inr s'"
    by (auto split: sum.splits)
  show ?case
    using index_written_trans [OF ensureCheckTxn_rows(1) [OF s1(1)] Cons.IH [OF s1(2)]] .
qed

lemma EnsureRegistration_rows:
  assumes "EnsureRegistration idx req s = Inr s'"
  shows "index_written idx s s'" and "IndexRow s' ''nodes'' = idx"
proof -
  let ?s1 = "ensureNodeTxn idx
                 \<lparr>CreateIndex = 0, ModifyIndex = 0, Node.Node = RegisterRequest.Node req,
                  Node.Address = RegisterRequest.Address req\<rparr> s"
  from assms obtain s2 s3 where
    s2: "(case RegisterRequest.Service req of None \<Rightarrow> Inr ?s1
          | Some svc \<Rightarrow> ensureServiceTxn idx (RegisterRequest.Node req) svc ?s1) = Inr s2"
    and s3: "(case Check req of None \<Rightarrow> Inr s2 | Some hc \<Rightarrow> ensureCheckTxn idx hc s2) = Inr s3"
    and s': "ensureChecksTxn idx (RegisterRequest.Checks req) s3 = Inr s'"
    by (auto simp: EnsureRegistration_def Let_def split: sum.splits)
  have a: "index_written idx s ?s1" by (rule index_written_ensureNodeTxn)
  have b: "index_written idx ?s1 s2"
    using s2 by (cases "RegisterRequest.Service req") (auto dest: ensureServiceTxn_rows(1))
  have c: "index_written idx s2 s3"
    using s3 by (cases "Check req") (auto dest: ensureCheckTxn_rows(1))
  have d: "index_written idx s3 s'"
    using s' by (rule ensureChecksTxn_rows)
  show "index_written idx s s'"
    using a b c d by (blast intro: index_written_trans)
  have "index_written idx ?s1 s'"
    using b c d by (blast intro: index_written_trans)
  then show "IndexRow s' ''nodes'' = idx"
    by (rule index_written_row) (rule IndexRow_ensureNodeTxn)
qed

lemma maxIndex_catalog:
  "maxIndex s [''nodes'', ''services'', ''checks'']
     = max (IndexRow s ''nodes'') (max (IndexRow s ''services'') (IndexRow s ''checks''))"
proof -
  have z: "max x 0 = x" for x :: uint64
    by (simp add: max_def)
  show ?thesis
    by (simp add: maxIndex_def max_of_def z max.assoc max.commute max.left_commute)
qed

lemma maxIndex_written:
  assumes "index_written idx s s'"
    and "IndexRow s' ''nodes'' = idx \<or> IndexRow s' ''services'' = idx \<or> IndexRow s' ''checks'' = idx"
    and "maxIndex s [''nodes'', ''services'', ''checks''] < idx"
  shows "maxIndex s' [''nodes'', ''services'', ''checks''] = idx"
proof -
  from assms(3) have lt: "IndexRow s ''nodes'' < idx" "IndexRow s ''services'' < idx"
    "IndexRow s ''checks'' < idx"
    by (simp_all add: maxIndex_catalog)
  from assms(1) have
    "IndexRow s' ''nodes'' = IndexRow s ''nodes'' \<or> IndexRow s' ''nodes'' = idx"
    "IndexRow s' ''services'' = IndexRow s ''services'' \<or> IndexRow s' ''services'' = idx"
    "IndexRow s' ''checks'' = IndexRow s ''checks'' \<or> IndexRow s' ''checks'' = idx"
    by (simp_all add: index_written_def)
  with lt assms(2) show ?thesis
    unfolding maxIndex_catalog by (auto simp: max_def)
qed

section \<open>The result index of CheckServiceNodes\<close>

text \<open>
  C9. The result index of \<^verbatim>\<open>CheckServiceNodes\<close> is the largest of the rows of the
  node, service and check tables. A later write to one of the three tables, at a log
  index above the returned index, gives a result index that is that log index and so
  is strictly above the returned one: the registration of a node, of a service or of a
  check, alone or in one registration request, and the delete of a node, of a service
  or of a check that exists.
\<close>

theorem CheckServiceNodes_index:
  "fst (CheckServiceNodes s name)
     = max (IndexRow s ''nodes'') (max (IndexRow s ''services'') (IndexRow s ''checks''))
   \<and> (fst (CheckServiceNodes s name) < idx \<longrightarrow>
        (\<forall>s'. (EnsureNode idx nd s = Inr s'
               \<or> EnsureService idx node svc s = Inr s'
               \<or> EnsureCheck idx hc s = Inr s'
               \<or> EnsureRegistration idx req s = Inr s'
               \<or> (DeleteNode idx node s = Inr s' \<and> tbl_first (nodes s) node \<noteq> None)
               \<or> (DeleteService idx node sid s = Inr s'
                  \<and> tbl_first (services s) (node, sid) \<noteq> None)
               \<or> (DeleteCheck idx node cid s = Inr s'
                  \<and> tbl_first (checks s) (node, cid) \<noteq> None))
           \<longrightarrow> fst (CheckServiceNodes s' name) = idx
             \<and> fst (CheckServiceNodes s name) < fst (CheckServiceNodes s' name)))"
proof -
  have i: "fst (CheckServiceNodes s name) = maxIndex s [''nodes'', ''services'', ''checks'']" for s
    by (simp add: CheckServiceNodes_def Let_def)
  have w: "fst (CheckServiceNodes s' name) = idx"
    if "fst (CheckServiceNodes s name) < idx"
      and "EnsureNode idx nd s = Inr s'
               \<or> EnsureService idx node svc s = Inr s'
               \<or> EnsureCheck idx hc s = Inr s'
               \<or> EnsureRegistration idx req s = Inr s'
               \<or> (DeleteNode idx node s = Inr s' \<and> tbl_first (nodes s) node \<noteq> None)
               \<or> (DeleteService idx node sid s = Inr s'
                  \<and> tbl_first (services s) (node, sid) \<noteq> None)
               \<or> (DeleteCheck idx node cid s = Inr s'
                  \<and> tbl_first (checks s) (node, cid) \<noteq> None)" for s'
  proof -
    have "index_written idx s s'
          \<and> (IndexRow s' ''nodes'' = idx \<or> IndexRow s' ''services'' = idx
             \<or> IndexRow s' ''checks'' = idx)"
      using that(2)
    proof (elim disjE conjE)
      assume "EnsureNode idx nd s = Inr s'"
      then have "s' = ensureNodeTxn idx nd s" by (simp add: EnsureNode_def)
      then show ?thesis
        by (simp add: index_written_ensureNodeTxn IndexRow_ensureNodeTxn)
    next
      assume "EnsureService idx node svc s = Inr s'"
      then show ?thesis
        using ensureServiceTxn_rows [of idx node svc s s'] by (simp add: EnsureService_def)
    next
      assume "EnsureCheck idx hc s = Inr s'"
      then show ?thesis
        using ensureCheckTxn_rows [of idx hc s s'] by (simp add: EnsureCheck_def)
    next
      assume "EnsureRegistration idx req s = Inr s'"
      then show ?thesis
        using EnsureRegistration_rows [of idx req s s'] by simp
    next
      assume "DeleteNode idx node s = Inr s'" "tbl_first (nodes s) node \<noteq> None"
      then show ?thesis
        using index_written_deleteNodeTxn [of idx s node] IndexRow_deleteNodeTxn [of s node idx]
        by (auto simp: DeleteNode_def)
    next
      assume "DeleteService idx node sid s = Inr s'" "tbl_first (services s) (node, sid) \<noteq> None"
      then show ?thesis
        using index_written_deleteServiceTxn [of idx s node sid]
          IndexRow_deleteServiceTxn [of s node sid idx]
        by (auto simp: DeleteService_def)
    next
      assume "DeleteCheck idx node cid s = Inr s'" "tbl_first (checks s) (node, cid) \<noteq> None"
      then show ?thesis
        using index_written_deleteCheckTxn [of idx s node cid]
          IndexRow_deleteCheckTxn [of s node cid idx]
        by (auto simp: DeleteCheck_def)
    qed
    then show ?thesis
      using maxIndex_written [of idx s s'] that(1) by (simp add: i)
  qed
  show ?thesis
    using w by (auto simp: i maxIndex_catalog)
qed

theorem CheckServiceNodes_index_witness:
  "fst (CheckServiceNodes csn_store ''service1'') = 7
   \<and> IndexRow csn_store ''nodes'' = 1 \<and> IndexRow csn_store ''services'' = 5
   \<and> IndexRow csn_store ''checks'' = 7
   \<and> fst (CheckServiceNodes (testRegisterNode 8 ''node1'' csn_store) ''service1'') = 8
   \<and> fst (CheckServiceNodes csn_store ''service1'')
       < fst (CheckServiceNodes (testRegisterNode 8 ''node1'' csn_store) ''service1'')"
proof -
  let ?nd = "\<lparr>CreateIndex = 0, ModifyIndex = 0, Node.Node = ''node1'', Node.Address = []\<rparr>"
  have r: "IndexRow csn_store ''nodes'' = 1" "IndexRow csn_store ''services'' = 5"
    "IndexRow csn_store ''checks'' = 7"
    by code_simp+
  have e: "EnsureNode 8 ?nd csn_store = Inr (testRegisterNode 8 ''node1'' csn_store)"
    by (simp add: testRegisterNode_def ok_store_def EnsureNode_def)
  show ?thesis
    using CheckServiceNodes_index [of csn_store "''service1''" 8 ?nd] r e by simp
qed

section \<open>Errors of Restore\<close>

lemma Restore_loop_error:
  assumes "Restore_loop ss header fs c = (Some err, c')"
  shows "\<exists>pre f post. fs = pre @ f # post
           \<and> Restore_loop ss header pre c = (None, c')
           \<and> Restore_loop ss header [f] c' = (Some err, c')"
  using assms
proof (induction fs arbitrary: c)
  case Nil
  then show ?case by simp
next
  case (Cons f fs)
  show ?case
  proof (cases f)
    case (ReadFailure e)
    with Cons.prems have "c' = c" "e = err" by simp_all
    with ReadFailure have "f # fs = [] @ f # fs \<and> Restore_loop ss header [] c = (None, c')
        \<and> Restore_loop ss header [f] c' = (Some err, c')"
      by simp
    then show ?thesis by blast
  next
    case (Frame t p)
    show ?thesis
    proof (cases "Restore_record ss header t p c")
      case (Inl e)
      with Cons.prems Frame have "c' = c" "e = err" by simp_all
      with Frame Inl have "f # fs = [] @ f # fs \<and> Restore_loop ss header [] c = (None, c')
          \<and> Restore_loop ss header [f] c' = (Some err, c')"
        by simp
      then show ?thesis by blast
    next
      case (Inr c1)
      with Cons.prems Frame have "Restore_loop ss header fs c1 = (Some err, c')" by simp
      from Cons.IH [OF this] obtain pre g post where
        "fs = pre @ g # post" "Restore_loop ss header pre c1 = (None, c')"
        "Restore_loop ss header [g] c' = (Some err, c')"
        by blast
      with Frame Inr have "f # fs = (f # pre) @ g # post
          \<and> Restore_loop ss header (f # pre) c = (None, c')
          \<and> Restore_loop ss header [g] c' = (Some err, c')"
        by simp
      then show ?thesis by blast
    qed
  qed
qed

text \<open>
  C2 as the spec states it fails: on a stream whose second record has an unrecognised
  type, \<^verbatim>\<open>Restore\<close> returns the error, and the machine's store is the new store
  that holds the first record. It is neither the store the machine had nor an empty one.
\<close>

theorem Restore_error_counterexample:
  "fst (Restore consul_store used_FSM bad_stream) = Some (ErrUnrecognizedMsgType 99)
   \<and> KVSRestore ((test_DirEntry ''/test'' [102])\<lparr>CreateIndex := 8, ModifyIndex := 8\<rparr>) NewStateStore
       = Inr (state (snd (Restore consul_store used_FSM bad_stream)))
   \<and> KVSGet (state (snd (Restore consul_store used_FSM bad_stream))) ''/test''
       = Some ((test_DirEntry ''/test'' [102])\<lparr>CreateIndex := 8, ModifyIndex := 8\<rparr>)
   \<and> state (snd (Restore consul_store used_FSM bad_stream)) \<noteq> state used_FSM
   \<and> state (snd (Restore consul_store used_FSM bad_stream)) \<noteq> NewStateStore"
  by code_simp


text \<open>
  C2, as amended. When \<^verbatim>\<open>Restore\<close> returns an error, the error is the one that the
  failing step raised: the creation of the new store (the machine is then unchanged),
  the decoding of the header (the machine then holds the new, empty store), or a
  record of the stream (a failed read, a record that does not decode, a record the
  store refuses, or an unrecognised type), in which case the machine holds the new
  store populated with every record before the failing one.
\<close>

theorem Restore_error_keeps_partial_store:
  assumes "Restore ss c old = (Some err, c')"
  shows "(ss_NewStateStore ss = Inl err \<and> c' = c)
       \<or> (\<exists>st. ss_NewStateStore ss = Inr st
            \<and> ((stream_header old = Inl err \<and> c' = c\<lparr>state := st\<rparr>)
               \<or> (\<exists>header pre f post. stream_header old = Inr header
                     \<and> stream_frames old = pre @ f # post
                     \<and> Restore_loop ss header pre (c\<lparr>state := st\<rparr>) = (None, c')
                     \<and> Restore_loop ss header [f] c' = (Some err, c'))))"
proof (cases "ss_NewStateStore ss")
  case (Inl e)
  with assms show ?thesis by (simp add: Restore_def)
next
  case (Inr st)
  show ?thesis
  proof (cases "stream_header old")
    case (Inl e)
    with assms Inr show ?thesis by (simp add: Restore_def)
  next
    case header: (Inr header)
    with assms Inr have "Restore_loop ss header (stream_frames old) (c\<lparr>state := st\<rparr>) = (Some err, c')"
      by (simp add: Restore_def)
    from Restore_loop_error [OF this] header Inr show ?thesis by blast
  qed
qed

theorem Restore_error_keeps_partial_store_witness:
  "Restore consul_store used_FSM bad_stream
     = (Some (ErrUnrecognizedMsgType 99),
        used_FSM\<lparr>state := ok_store (KVSRestore
          ((test_DirEntry ''/test'' [102])\<lparr>CreateIndex := 8, ModifyIndex := 8\<rparr>) NewStateStore)\<rparr>)
   \<and> (\<exists>pre f post. stream_frames bad_stream = pre @ f # post
         \<and> Restore_loop consul_store \<lparr>LastIndex = 8\<rparr> pre (used_FSM\<lparr>state := NewStateStore\<rparr>)
             = (None, snd (Restore consul_store used_FSM bad_stream))
         \<and> fst (Restore_loop consul_store \<lparr>LastIndex = 8\<rparr> [f]
                  (snd (Restore consul_store used_FSM bad_stream)))
             = Some (ErrUnrecognizedMsgType 99))"
proof -
  let ?c' = "used_FSM\<lparr>state := ok_store (KVSRestore
          ((test_DirEntry ''/test'' [102])\<lparr>CreateIndex := 8, ModifyIndex := 8\<rparr>) NewStateStore)\<rparr>"
  have r: "Restore consul_store used_FSM bad_stream = (Some (ErrUnrecognizedMsgType 99), ?c')"
    by code_simp
  have n: "ss_NewStateStore consul_store = Inr NewStateStore"
    "stream_header bad_stream = Inr \<lparr>LastIndex = 8\<rparr>"
    by (simp_all add: consul_store_def bad_stream_def)
  from Restore_error_keeps_partial_store [OF r] n
  obtain pre f post where "stream_frames bad_stream = pre @ f # post"
    "Restore_loop consul_store \<lparr>LastIndex = 8\<rparr> pre (used_FSM\<lparr>state := NewStateStore\<rparr>) = (None, ?c')"
    "Restore_loop consul_store \<lparr>LastIndex = 8\<rparr> [f] ?c' = (Some (ErrUnrecognizedMsgType 99), ?c')"
    by auto
  then have "\<exists>pre f post. stream_frames bad_stream = pre @ f # post
         \<and> Restore_loop consul_store \<lparr>LastIndex = 8\<rparr> pre (used_FSM\<lparr>state := NewStateStore\<rparr>)
             = (None, ?c')
         \<and> fst (Restore_loop consul_store \<lparr>LastIndex = 8\<rparr> [f] ?c')
             = Some (ErrUnrecognizedMsgType 99)"
    by (intro exI [of _ pre] exI [of _ f] exI [of _ post]) simp
  then show ?thesis
    by (simp add: r)
qed


section \<open>Snapshot, Persist and Restore\<close>

text \<open>
  The round trip is followed segment by segment: what \<^verbatim>\<open>Persist\<close> writes when
  neither the sink nor the encoder fails, what \<^verbatim>\<open>Restore\<close> makes of the
  registrations of one node, of all nodes, and of the sessions, ACLs, K/V entries and
  tombstones that follow.
\<close>

lemma frames_of_frame_items:
  assumes "\<forall>err. ReadFailure err \<notin> set fs"
  shows "frames_of (concat (map frame_items fs)) = fs"
  using assms
proof (induction fs)
  case Nil
  then show ?case by simp
next
  case (Cons f fs)
  then show ?case by (cases f) auto
qed

lemma snapshot_frames_records: "ReadFailure err \<notin> set (snapshot_frames s)"
  by (auto simp: snapshot_frames_def node_frames_def register_frame_def)

lemma persistRecords_reliable:
  assumes "reliable io"
  shows "persistRecords io t ps sink
         = (None, sink\<lparr>sink_items := sink_items sink
                                        @ concat (map (\<lambda>p. frame_items (Frame t p)) ps)\<rparr>)"
proof (induction ps arbitrary: sink)
  case Nil
  then show ?case by simp
next
  case (Cons p ps)
  have w: "sink_Write io t k = k\<lparr>sink_items := sink_items k @ [IType t]\<rparr>" for k
    using assms by (simp add: sink_Write_def reliable_def)
  have e: "Encode io x k = Inr (k\<lparr>sink_items := sink_items k @ [x]\<rparr>)" for x k
    using assms by (simp add: Encode_def reliable_def)
  show ?case
    by (simp add: Let_def w e Cons.IH)
qed

lemma persistNodes_loop_reliable:
  assumes "reliable io"
  shows "persistNodes_loop consul_store io s ns sink =
     (None, sink\<lparr>sink_items := sink_items sink
                                @ concat (map frame_items (concat (map (node_frames s) ns)))\<rparr>)"
proof (induction ns arbitrary: sink)
  case Nil
  then show ?case by simp
next
  case (Cons n ns)
  have d: "ss_ServiceDump consul_store s (Node.Node n) = Inr (ServiceDump s (Node.Node n))"
    "ss_CheckDump consul_store s (Node.Node n) = Inr (CheckDump s (Node.Node n))"
    by (simp_all add: consul_store_def)
  have w: "sink_Write io t k = k\<lparr>sink_items := sink_items k @ [IType t]\<rparr>" for k t
    using assms by (simp add: sink_Write_def reliable_def)
  have e: "Encode io x k = Inr (k\<lparr>sink_items := sink_items k @ [x]\<rparr>)" for x k
    using assms by (simp add: Encode_def reliable_def)
  show ?case
    by (simp add: Let_def d w e Cons.IH persistRecords_reliable [OF assms]
        node_frames_def register_frame_def node_request_def comp_def)
qed

lemma Persist_reliable:
  assumes "reliable io"
  shows "Persist consul_store io s empty_sink =
     (None, \<lparr>sink_items = IHeader \<lparr>LastIndex = StoreLastIndex s\<rparr>
                           # concat (map frame_items (snapshot_frames s)),
             sink_cancel = False\<rparr>)"
proof -
  have d: "ss_NodeDump consul_store s = Inr (NodeDump s)"
    "ss_SessionDump consul_store s = Inr (SessionDump s)"
    "ss_ACLDump consul_store s = Inr (ACLDump s)"
    "ss_KVSDump consul_store s = Inr (KVSDump s)"
    "ss_TombstoneDump consul_store s = Inr (TombstoneDump s)"
    "ss_LastIndex consul_store s = StoreLastIndex s"
    by (simp_all add: consul_store_def)
  have e: "Encode io x k = Inr (k\<lparr>sink_items := sink_items k @ [x]\<rparr>)" for x k
    using assms by (simp add: Encode_def reliable_def)
  show ?thesis
    by (simp add: Persist_def Let_def persistNodes_def persistSessions_def persistACLs_def
        persistKV_def persistTombstones_def d e persistNodes_loop_reliable [OF assms]
        persistRecords_reliable [OF assms] empty_sink_def snapshot_frames_def comp_def)
qed

lemma snapshot_restore_run:
  assumes "reliable io"
  shows "snapshot_restore io s
   = Restore_loop consul_store \<lparr>LastIndex = StoreLastIndex s\<rparr> (snapshot_frames s) NewFSM"
proof -
  have n: "ss_NewStateStore consul_store = Inr NewStateStore"
    by (simp add: consul_store_def)
  have f: "NewFSM\<lparr>state := NewStateStore\<rparr> = NewFSM"
    by (simp add: NewFSM_def)
  have r: "\<forall>err. ReadFailure err \<notin> set (snapshot_frames s)"
    by (simp add: snapshot_frames_records)
  show ?thesis
    by (simp add: snapshot_restore_def Snapshot_def Persist_reliable [OF assms] sink_stream_def
        Restore_def n f frames_of_frame_items [OF r])
qed

lemma Restore_loop_append:
  "Restore_loop ss header (xs @ ys) c =
     (case Restore_loop ss header xs c of
        (None, c1) \<Rightarrow> Restore_loop ss header ys c1
      | (Some err, c1) \<Rightarrow> (Some err, c1))"
proof (induction xs arbitrary: c)
  case Nil
  then show ?case by simp
next
  case (Cons f fs)
  show ?case
    by (cases f) (simp_all add: Cons.IH split: sum.splits)
qed

lemma tbl_insert_last:
  "\<forall>k' \<in> fst ` set t. k' < k \<Longrightarrow> tbl_insert k v t = t @ [(k, v)]"
  by (induction t) auto

lemma tbl_sorted_Cons:
  "tbl_sorted ((k, v) # t) \<longleftrightarrow> (\<forall>k' \<in> fst ` set t. k < k') \<and> tbl_sorted t"
  by (auto simp: tbl_sorted_def)

lemma tbl_sorted_append:
  "tbl_sorted (t @ u) \<longleftrightarrow>
     tbl_sorted t \<and> tbl_sorted u \<and> (\<forall>k \<in> fst ` set t. \<forall>k' \<in> fst ` set u. k < k')"
  by (auto simp: tbl_sorted_def sorted_wrt_append)

lemma tbl_sorted_filter: "tbl_sorted t \<Longrightarrow> tbl_sorted (filter P t)"
  by (induction t) (auto simp: tbl_sorted_def)

lemma tbl_insert_same:
  "tbl_sorted t \<Longrightarrow> (k, v) \<in> set t \<Longrightarrow> tbl_insert k v t = t"
proof (induction t)
  case Nil
  then show ?case by simp
next
  case (Cons row t)
  obtain k' v' where row: "row = (k', v')" by (cases row)
  from Cons.prems have s: "\<forall>x \<in> fst ` set t. k' < x" "tbl_sorted t"
    by (simp_all add: row tbl_sorted_Cons)
  show ?case
  proof (cases "(k, v) = (k', v')")
    case True
    then show ?thesis by (simp add: row)
  next
    case False
    with Cons.prems(2) have m: "(k, v) \<in> set t" by (auto simp: row)
    then have "k' < k" using s(1) by force
    then show ?thesis
      using Cons.IH [OF s(2) m] by (auto simp: row)
  qed
qed

lemma fold_tbl_insert_sorted:
  assumes "tbl_sorted (acc @ t)"
  shows "fold (\<lambda>row. tbl_insert (fst row) (snd row)) t acc = acc @ t"
  using assms
proof (induction t arbitrary: acc)
  case Nil
  then show ?case by simp
next
  case (Cons row t)
  from Cons.prems have lt: "\<forall>k' \<in> fst ` set acc. k' < fst row"
    by (auto simp: tbl_sorted_append)
  have "tbl_insert (fst row) (snd row) acc = acc @ [row]"
    using tbl_insert_last [OF lt, of "snd row"] by simp
  moreover have "tbl_sorted ((acc @ [row]) @ t)"
    using Cons.prems by simp
  ultimately show ?case
    using Cons.IH [of "acc @ [row]"] by simp
qed

lemma IndexRow_indexUpdateMax_other:
  "tbl' \<noteq> tbl \<Longrightarrow> IndexRow (indexUpdateMax tbl idx s) tbl' = IndexRow s tbl'"
  by (simp add: indexUpdateMax_def IndexRow_indexUpdate)

lemma indexUpdate_fields [simp]:
  "nodes (indexUpdate tbl idx s) = nodes s"
  "services (indexUpdate tbl idx s) = services s"
  "checks (indexUpdate tbl idx s) = checks s"
  "kvs (indexUpdate tbl idx s) = kvs s"
  "tombstones (indexUpdate tbl idx s) = tombstones s"
  "sessions (indexUpdate tbl idx s) = sessions s"
  "acls (indexUpdate tbl idx s) = acls s"
  by (simp_all add: indexUpdate_def)

lemma indexUpdateMax_fields [simp]:
  "nodes (indexUpdateMax tbl idx s) = nodes s"
  "services (indexUpdateMax tbl idx s) = services s"
  "checks (indexUpdateMax tbl idx s) = checks s"
  "kvs (indexUpdateMax tbl idx s) = kvs s"
  "tombstones (indexUpdateMax tbl idx s) = tombstones s"
  "sessions (indexUpdateMax tbl idx s) = sessions s"
  "acls (indexUpdateMax tbl idx s) = acls s"
  by (simp_all add: indexUpdateMax_def)

lemma IndexRow_indexUpdateMax:
  "IndexRow (indexUpdateMax tbl idx s) tbl = max (IndexRow s tbl) idx"
  by (auto simp: indexUpdateMax_def IndexRow_indexUpdate max_def)

lemma max_zero [simp]: "max (x::uint64) 0 = x" "max 0 (x::uint64) = x"
  by (simp_all add: max_def)

lemma max_of_Nil [simp]: "max_of [] = 0"
  by (simp add: max_of_def)

lemma fold_max_start: "fold max xs (a::uint64) = max a (max_of xs)"
proof (induction xs arbitrary: a)
  case Nil
  then show ?case by simp
next
  case (Cons y ys)
  have "fold max (y # ys) a = max (max y a) (max_of ys)"
    using Cons.IH [of "max y a"] by simp
  moreover have "max_of (y # ys) = max y (max_of ys)"
    using Cons.IH [of y] by (simp add: max_of_def)
  ultimately show ?case
    by (simp add: max.assoc max.commute max.left_commute)
qed

lemma max_of_Cons: "max_of (x # xs) = max x (max_of xs)"
  using fold_max_start [of xs x] by (simp add: max_of_def)

lemma same_catalog_refl [simp]: "same_catalog st st"
  by (simp add: same_catalog_def)

lemma same_catalog_trans: "same_catalog a b \<Longrightarrow> same_catalog b c \<Longrightarrow> same_catalog a c"
  by (simp add: same_catalog_def)

lemma Restore_sessions:
  "\<exists>c'. Restore_loop consul_store header (map (\<lambda>x. Frame SessionRequestType (PSession x)) xs) c
          = (None, c')
     \<and> sessions (state c')
         = fold (\<lambda>x. tbl_insert (Session.ID x) x) xs (sessions (state c))
     \<and> same_catalog (state c') (state c)
     \<and> kvs (state c') = kvs (state c) \<and> tombstones (state c') = tombstones (state c)
     \<and> acls (state c') = acls (state c)
     \<and> IndexRow (state c') ''sessions''
         = max (IndexRow (state c) ''sessions'') (max_of (map ModifyIndex xs))"
proof (induction xs arbitrary: c)
  case Nil
  then show ?case by simp
next
  case (Cons x xs)
  let ?st = "indexUpdateMax ''sessions'' (ModifyIndex x)
               ((state c)\<lparr>sessions := tbl_insert (Session.ID x) x (sessions (state c))\<rparr>)"
  have r: "Restore_record consul_store header SessionRequestType (PSession x) c
           = Inr (c\<lparr>state := ?st\<rparr>)"
    by (simp add: Restore_record_def message_type_defs consul_store_def SessionRestore_def)
  have sc: "same_catalog ?st (state c)"
    by (simp add: same_catalog_def IndexRow_indexUpdateMax_other)
  from Cons.IH [of "c\<lparr>state := ?st\<rparr>"] obtain c' where
    c': "Restore_loop consul_store header (map (\<lambda>x. Frame SessionRequestType (PSession x)) xs)
           (c\<lparr>state := ?st\<rparr>) = (None, c')"
      "sessions (state c') = fold (\<lambda>x. tbl_insert (Session.ID x) x) xs (sessions ?st)"
      "same_catalog (state c') ?st"
      "kvs (state c') = kvs ?st" "tombstones (state c') = tombstones ?st"
      "acls (state c') = acls ?st"
      "IndexRow (state c') ''sessions''
         = max (IndexRow ?st ''sessions'') (max_of (map ModifyIndex xs))"
    by auto
  have ix: "IndexRow ?st ''sessions'' = max (IndexRow (state c) ''sessions'') (ModifyIndex x)"
    by (simp add: IndexRow_indexUpdateMax)
  have "IndexRow (state c') ''sessions''
          = max (IndexRow (state c) ''sessions'') (max_of (map ModifyIndex (x # xs)))"
    by (simp add: c'(7) ix max_of_Cons max.assoc)
  then show ?case
    using c'(1-6) same_catalog_trans [OF c'(3) sc] by (simp add: r)
qed

lemma Restore_acls:
  "\<exists>c'. Restore_loop consul_store header (map (\<lambda>x. Frame ACLRequestType (PACL x)) xs) c
          = (None, c')
     \<and> acls (state c') = fold (\<lambda>x. tbl_insert (ACL.ID x) x) xs (acls (state c))
     \<and> same_catalog (state c') (state c)
     \<and> kvs (state c') = kvs (state c) \<and> tombstones (state c') = tombstones (state c)
     \<and> sessions (state c') = sessions (state c)
     \<and> IndexRow (state c') ''sessions'' = IndexRow (state c) ''sessions''"
proof (induction xs arbitrary: c)
  case Nil
  then show ?case by simp
next
  case (Cons x xs)
  let ?st = "indexUpdateMax ''acls'' (ModifyIndex x)
               ((state c)\<lparr>acls := tbl_insert (ACL.ID x) x (acls (state c))\<rparr>)"
  have r: "Restore_record consul_store header ACLRequestType (PACL x) c
           = Inr (c\<lparr>state := ?st\<rparr>)"
    by (simp add: Restore_record_def message_type_defs consul_store_def ACLRestore_def)
  have sc: "same_catalog ?st (state c)"
    by (simp add: same_catalog_def IndexRow_indexUpdateMax_other)
  from Cons.IH [of "c\<lparr>state := ?st\<rparr>"] obtain c' where
    c': "Restore_loop consul_store header (map (\<lambda>x. Frame ACLRequestType (PACL x)) xs)
           (c\<lparr>state := ?st\<rparr>) = (None, c')"
      "acls (state c') = fold (\<lambda>x. tbl_insert (ACL.ID x) x) xs (acls ?st)"
      "same_catalog (state c') ?st"
      "kvs (state c') = kvs ?st" "tombstones (state c') = tombstones ?st"
      "sessions (state c') = sessions ?st"
      "IndexRow (state c') ''sessions'' = IndexRow ?st ''sessions''"
    by auto
  have ix: "IndexRow ?st ''sessions'' = IndexRow (state c) ''sessions''"
    by (simp add: IndexRow_indexUpdateMax_other)
  show ?case
    using c' ix same_catalog_trans [OF c'(3) sc] by (simp add: r)
qed

lemma Restore_kvs:
  "\<exists>c'. Restore_loop consul_store header (map (\<lambda>x. Frame KVSRequestType (PDirEntry x)) xs) c
          = (None, c')
     \<and> kvs (state c') = fold (\<lambda>x. tbl_insert (DirEntry.Key x) x) xs (kvs (state c))
     \<and> same_catalog (state c') (state c)
     \<and> acls (state c') = acls (state c) \<and> tombstones (state c') = tombstones (state c)
     \<and> sessions (state c') = sessions (state c)
     \<and> IndexRow (state c') ''sessions'' = IndexRow (state c) ''sessions''"
proof (induction xs arbitrary: c)
  case Nil
  then show ?case by simp
next
  case (Cons x xs)
  let ?st = "indexUpdateMax ''kvs'' (ModifyIndex x)
               ((state c)\<lparr>kvs := tbl_insert (DirEntry.Key x) x (kvs (state c))\<rparr>)"
  have r: "Restore_record consul_store header KVSRequestType (PDirEntry x) c
           = Inr (c\<lparr>state := ?st\<rparr>)"
    by (simp add: Restore_record_def message_type_defs consul_store_def KVSRestore_def)
  have sc: "same_catalog ?st (state c)"
    by (simp add: same_catalog_def IndexRow_indexUpdateMax_other)
  from Cons.IH [of "c\<lparr>state := ?st\<rparr>"] obtain c' where
    c': "Restore_loop consul_store header (map (\<lambda>x. Frame KVSRequestType (PDirEntry x)) xs)
           (c\<lparr>state := ?st\<rparr>) = (None, c')"
      "kvs (state c') = fold (\<lambda>x. tbl_insert (DirEntry.Key x) x) xs (kvs ?st)"
      "same_catalog (state c') ?st"
      "acls (state c') = acls ?st" "tombstones (state c') = tombstones ?st"
      "sessions (state c') = sessions ?st"
      "IndexRow (state c') ''sessions'' = IndexRow ?st ''sessions''"
    by auto
  have ix: "IndexRow ?st ''sessions'' = IndexRow (state c) ''sessions''"
    by (simp add: IndexRow_indexUpdateMax_other)
  show ?case
    using c' ix same_catalog_trans [OF c'(3) sc] by (simp add: r)
qed

lemma Restore_tombstones:
  "\<exists>c'. Restore_loop consul_store header
            (map (\<lambda>x. Frame TombstoneRequestType (PDirEntry (fake_DirEntry x))) xs) c
          = (None, c')
     \<and> tombstones (state c')
         = fold (\<lambda>x. tbl_insert (Tombstone.Key x) x) xs (tombstones (state c))
     \<and> same_catalog (state c') (state c)
     \<and> acls (state c') = acls (state c) \<and> kvs (state c') = kvs (state c)
     \<and> sessions (state c') = sessions (state c)
     \<and> IndexRow (state c') ''sessions'' = IndexRow (state c) ''sessions''"
proof (induction xs arbitrary: c)
  case Nil
  then show ?case by simp
next
  case (Cons x xs)
  let ?st = "indexUpdateMax ''tombstones'' (Tombstone.Index x)
               ((state c)\<lparr>tombstones := tbl_insert (Tombstone.Key x) x (tombstones (state c))\<rparr>)"
  have x: "\<lparr>Tombstone.Key = DirEntry.Key (fake_DirEntry x),
            Tombstone.Index = ModifyIndex (fake_DirEntry x)\<rparr> = x"
    by (simp add: fake_DirEntry_def)
  have r: "Restore_record consul_store header TombstoneRequestType (PDirEntry (fake_DirEntry x)) c
           = Inr (c\<lparr>state := ?st\<rparr>)"
    by (simp add: Restore_record_def message_type_defs consul_store_def TombstoneRestore_def x)
  have sc: "same_catalog ?st (state c)"
    by (simp add: same_catalog_def IndexRow_indexUpdateMax_other)
  from Cons.IH [of "c\<lparr>state := ?st\<rparr>"] obtain c' where
    c': "Restore_loop consul_store header
           (map (\<lambda>x. Frame TombstoneRequestType (PDirEntry (fake_DirEntry x))) xs)
           (c\<lparr>state := ?st\<rparr>) = (None, c')"
      "tombstones (state c') = fold (\<lambda>x. tbl_insert (Tombstone.Key x) x) xs (tombstones ?st)"
      "same_catalog (state c') ?st"
      "acls (state c') = acls ?st" "kvs (state c') = kvs ?st"
      "sessions (state c') = sessions ?st"
      "IndexRow (state c') ''sessions'' = IndexRow ?st ''sessions''"
    by auto
  have ix: "IndexRow ?st ''sessions'' = IndexRow (state c) ''sessions''"
    by (simp add: IndexRow_indexUpdateMax_other)
  show ?case
    using c' ix same_catalog_trans [OF c'(3) sc] by (simp add: r)
qed

lemma fold_rows_keyed:
  assumes "tbl_sorted t" and "\<forall>row \<in> set t. key (snd row) = fst row"
  shows "fold (\<lambda>x. tbl_insert (key x) x) (tbl_rows t) [] = t"
proof -
  have "fold (\<lambda>x. tbl_insert (key x) x) (map snd u) acc
        = fold (\<lambda>row. tbl_insert (fst row) (snd row)) u acc"
    if "\<forall>row \<in> set u. key (snd row) = fst row" for u acc
    using that by (induction u arbitrary: acc) simp_all
  then show ?thesis
    using assms fold_tbl_insert_sorted [of "[]" t] by (simp add: tbl_rows_def)
qed

lemma same_others_refl [simp]: "same_others st st"
  by (simp add: same_others_def)

lemma same_others_trans: "same_others a b \<Longrightarrow> same_others b c \<Longrightarrow> same_others a c"
  by (simp add: same_others_def)

lemma tbl_first_fresh:
  fixes k :: "'k::linorder"
  assumes "\<forall>k' \<in> fst ` set t. k' < k"
  shows "tbl_first t k = None"
proof -
  have "k \<notin> fst ` set t"
  proof
    assume "k \<in> fst ` set t"
    with assms have "k < k" by blast
    then show False by simp
  qed
  then show ?thesis by (simp add: tbl_first_None_iff)
qed

lemma tbl_sorted_distinct: "tbl_sorted t \<Longrightarrow> distinct (map fst t)"
  by (simp add: tbl_sorted_def strict_sorted_iff)

lemma tbl_first_sorted_mem: "tbl_sorted t \<Longrightarrow> (k, v) \<in> set t \<Longrightarrow> tbl_first t k = Some v"
  by (simp add: tbl_first_def tbl_sorted_distinct)

lemma reindex_Node:
  "reindex L (n :: Node)
     = \<lparr>CreateIndex = L, ModifyIndex = L, Node.Node = Node.Node n, Node.Address = Node.Address n\<rparr>"
  by (cases n) (simp add: reindex_def)

lemma EnsureRegistration_new_node:
  assumes "\<forall>k' \<in> fst ` set (nodes st). k' < Node.Node n" and "catalog_rows L st"
  shows "\<exists>st'. EnsureRegistration L (node_request n) st = Inr st'
           \<and> nodes st' = nodes st @ [(Node.Node n, reindex L n)]
           \<and> services st' = services st \<and> checks st' = checks st
           \<and> same_others st' st \<and> catalog_rows L st'"
  using tbl_first_fresh [OF assms(1)] tbl_insert_last [OF assms(1)] assms(2)
  by (simp add: EnsureRegistration_def node_request_def ensureNodeTxn_def Let_def reindex_Node
      same_others_def catalog_rows_def IndexRow_indexUpdate)

lemma ensureNodeTxn_existing:
  assumes "tbl_sorted (nodes st)" and "(Node.Node n, reindex L n) \<in> set (nodes st)"
  shows "ensureNodeTxn L
           \<lparr>CreateIndex = 0, ModifyIndex = 0, Node.Node = Node.Node n,
            Node.Address = Node.Address n\<rparr> st
         = indexUpdate ''nodes'' L st"
proof -
  have f: "tbl_first (nodes st) (Node.Node n) = Some (reindex L n)"
    using assms by (rule tbl_first_sorted_mem)
  have i: "tbl_insert (Node.Node n) (reindex L n) (nodes st) = nodes st"
    using assms by (rule tbl_insert_same)
  show ?thesis
    using i by (simp add: ensureNodeTxn_def f Let_def) (simp add: reindex_Node reindex_def)
qed

lemma EnsureRegistration_new_service:
  assumes "tbl_sorted (nodes st)" and "(Node.Node n, reindex L n) \<in> set (nodes st)"
    and "\<forall>k' \<in> fst ` set (services st). k' < (Node.Node n, NodeService.ID srv)"
    and "catalog_rows L st"
  shows "\<exists>st'. EnsureRegistration L ((node_request n)\<lparr>RegisterRequest.Service := Some srv\<rparr>) st
                 = Inr st'
           \<and> nodes st' = nodes st
           \<and> services st' = services st @ [((Node.Node n, NodeService.ID srv), reindex L srv)]
           \<and> checks st' = checks st
           \<and> same_others st' st \<and> catalog_rows L st'"
proof -
  have f: "tbl_first (nodes st) (Node.Node n) = Some (reindex L n)"
    using assms(1,2) by (rule tbl_first_sorted_mem)
  have ne: "nodes st \<noteq> []" using assms(2) by auto
  show ?thesis
    using tbl_first_fresh [OF assms(3)] tbl_insert_last [OF assms(3)] assms(4) ne
    by (simp add: EnsureRegistration_def node_request_def ensureNodeTxn_existing [OF assms(1,2)]
        ensureServiceTxn_def f Let_def same_others_def catalog_rows_def IndexRow_indexUpdate
        reindex_def)
qed

lemma EnsureRegistration_new_check:
  assumes "tbl_sorted (nodes st)" and "(Node.Node n, reindex L n) \<in> set (nodes st)"
    and "\<forall>k' \<in> fst ` set (checks st). k' < (Node.Node n, HealthCheck.CheckID hc)"
    and "HealthCheck.Node hc = Node.Node n" and "Status hc \<noteq> []"
    and "(HealthCheck.ServiceID hc = [] \<and> hc' = hc)
         \<or> (\<exists>svc. HealthCheck.ServiceID hc \<noteq> []
               \<and> tbl_first (services st) (Node.Node n, HealthCheck.ServiceID hc) = Some svc
               \<and> hc' = hc\<lparr>ServiceName := NodeService.Service svc\<rparr>)"
    and "catalog_rows L st"
  shows "\<exists>st'. EnsureRegistration L
                  ((node_request n)\<lparr>RegisterRequest.Service := None, Check := Some hc\<rparr>) st
                 = Inr st'
           \<and> nodes st' = nodes st \<and> services st' = services st
           \<and> checks st' = checks st @ [((Node.Node n, HealthCheck.CheckID hc), reindex L hc')]
           \<and> same_others st' st \<and> catalog_rows L st'"
proof -
  let ?key = "(Node.Node n, HealthCheck.CheckID hc)"
  let ?st' = "indexUpdate ''checks'' L
                ((indexUpdate ''nodes'' L st)\<lparr>checks := checks st @ [(?key, reindex L hc')]\<rparr>)"
  have f: "tbl_first (nodes st) (Node.Node n) = Some (reindex L n)"
    using assms(1,2) by (rule tbl_first_sorted_mem)
  have ne: "nodes st \<noteq> []" using assms(2) by auto
  have c: "(hc\<lparr>CreateIndex := L, ModifyIndex := L\<rparr>)\<lparr>ServiceName := x\<rparr>
             = hc\<lparr>ServiceName := x, CreateIndex := L, ModifyIndex := L\<rparr>" for x
    by (cases hc) simp
  have run: "EnsureRegistration L
               ((node_request n)\<lparr>RegisterRequest.Service := None, Check := Some hc\<rparr>) st
             = Inr ?st'"
    using tbl_first_fresh [OF assms(3)] tbl_insert_last [OF assms(3)] assms(4-6)
    by (auto simp: EnsureRegistration_def node_request_def ensureNodeTxn_existing [OF assms(1,2)]
        ensureCheckTxn_def f Let_def reindex_def c)
  have p: "nodes ?st' = nodes st" "services ?st' = services st"
    "checks ?st' = checks st @ [(?key, reindex L hc')]" "same_others ?st' st"
    by (simp_all add: same_others_def IndexRow_indexUpdate)
  have r: "catalog_rows L ?st'"
    using assms(7) ne by (simp add: catalog_rows_def IndexRow_indexUpdate)
  show ?thesis
    using run p r by blast
qed

lemma Restore_record_register:
  assumes "EnsureRegistration (LastIndex header) req (state c) = Inr st'"
  shows "Restore_record consul_store header RegisterRequestType (PRegisterRequest req) c
           = Inr (c\<lparr>state := st'\<rparr>)"
  using assms
  by (simp add: Restore_record_def applyRegister_def consul_store_def)

lemma reindex_rows_simps [simp]:
  "reindex_rows L [] = []"
  "reindex_rows L (row # t) = (fst row, reindex L (snd row)) # reindex_rows L t"
  "reindex_rows L (t @ u) = reindex_rows L t @ reindex_rows L u"
  by (simp_all add: reindex_rows_def)

lemma keys_reindex_rows [simp]: "map fst (reindex_rows L t) = map fst t"
  by (simp add: reindex_rows_def comp_def)

lemma key_set_reindex_rows [simp]: "fst ` set (reindex_rows L t) = fst ` set t"
  by (force simp: reindex_rows_def)

lemma tbl_sorted_reindex_rows [simp]: "tbl_sorted (reindex_rows L t) \<longleftrightarrow> tbl_sorted t"
  by (simp add: tbl_sorted_def)

lemma tbl_first_reindex_rows:
  "tbl_first (reindex_rows L t) k = map_option (reindex L) (tbl_first t k)"
  by (induction t) (simp_all add: tbl_first_def)

lemma filter_reindex_rows:
  "filter (\<lambda>row. P (fst row)) (reindex_rows L t) = reindex_rows L (filter (\<lambda>row. P (fst row)) t)"
  by (induction t) simp_all

lemma tbl_rows_reindex_rows: "tbl_rows (reindex_rows L t) = map (reindex L) (tbl_rows t)"
  by (simp add: tbl_rows_def reindex_rows_def comp_def)

lemma tbl_sorted_same_keys: "map fst t = map fst u \<Longrightarrow> tbl_sorted t \<longleftrightarrow> tbl_sorted u"
  by (simp add: tbl_sorted_def)

lemma Restore_loop_register:
  assumes "EnsureRegistration L req (state c) = Inr st'"
  shows "Restore_loop consul_store \<lparr>LastIndex = L\<rparr> (register_frame req # fs) c
         = Restore_loop consul_store \<lparr>LastIndex = L\<rparr> fs (c\<lparr>state := st'\<rparr>)"
  using Restore_record_register [of "\<lparr>LastIndex = L\<rparr>" req c st'] assms
  by (simp add: register_frame_def)

lemma Restore_services:
  assumes "tbl_sorted (nodes (state c))"
    and "(Node.Node n, reindex L n) \<in> set (nodes (state c))"
    and "tbl_sorted (services (state c) @ rows)"
    and "\<forall>row \<in> set rows. fst (fst row) = Node.Node n \<and> NodeService.ID (snd row) = snd (fst row)"
    and "catalog_rows L (state c)"
  shows "\<exists>c'. Restore_loop consul_store \<lparr>LastIndex = L\<rparr>
                (map (\<lambda>srv. register_frame ((node_request n)\<lparr>RegisterRequest.Service := Some srv\<rparr>))
                   (tbl_rows rows)) c = (None, c')
           \<and> nodes (state c') = nodes (state c)
           \<and> services (state c') = services (state c) @ reindex_rows L rows
           \<and> checks (state c') = checks (state c)
           \<and> same_others (state c') (state c)
           \<and> catalog_rows L (state c')"
  using assms
proof (induction rows arbitrary: c)
  case Nil
  then show ?case by (simp add: tbl_rows_def)
next
  case (Cons row rows)
  let ?st = "state c"
  obtain srv where row: "row = ((Node.Node n, NodeService.ID srv), srv)"
    using Cons.prems(4) by (cases row) auto
  have lt: "\<forall>k' \<in> fst ` set (services ?st). k' < (Node.Node n, NodeService.ID srv)"
    using Cons.prems(3) by (auto simp: tbl_sorted_append row)
  from EnsureRegistration_new_service [OF Cons.prems(1,2) lt Cons.prems(5)] obtain st' where
    st': "EnsureRegistration L ((node_request n)\<lparr>RegisterRequest.Service := Some srv\<rparr>) ?st = Inr st'"
      "nodes st' = nodes ?st"
      "services st' = services ?st @ [((Node.Node n, NodeService.ID srv), reindex L srv)]"
      "checks st' = checks ?st" "same_others st' ?st" "catalog_rows L st'"
    by blast
  let ?c1 = "c\<lparr>state := st'\<rparr>"
  have p1: "tbl_sorted (nodes (state ?c1))" using Cons.prems(1) st'(2) by simp
  have p2: "(Node.Node n, reindex L n) \<in> set (nodes (state ?c1))"
    using Cons.prems(2) st'(2) by simp
  have p3: "tbl_sorted (services (state ?c1) @ rows)"
    using Cons.prems(3) tbl_sorted_same_keys [of "services (state ?c1) @ rows" "services ?st @ row # rows"]
    by (simp add: st'(3) row)
  have p4: "\<forall>row \<in> set rows. fst (fst row) = Node.Node n \<and> NodeService.ID (snd row) = snd (fst row)"
    using Cons.prems(4) by simp
  have p5: "catalog_rows L (state ?c1)" using st'(6) by simp
  from Cons.IH [OF p1 p2 p3 p4 p5] obtain c' where
    c': "Restore_loop consul_store \<lparr>LastIndex = L\<rparr>
           (map (\<lambda>srv. register_frame ((node_request n)\<lparr>RegisterRequest.Service := Some srv\<rparr>))
              (tbl_rows rows)) ?c1 = (None, c')"
      "nodes (state c') = nodes (state ?c1)"
      "services (state c') = services (state ?c1) @ reindex_rows L rows"
      "checks (state c') = checks (state ?c1)"
      "same_others (state c') (state ?c1)"
      "catalog_rows L (state c')"
    by blast
  have so: "same_others (state c') ?st"
    using same_others_trans [OF c'(5)] st'(5) by simp
  show ?case
    using c' st'(2-4) so Restore_loop_register [OF st'(1)]
    by (simp add: tbl_rows_def row)
qed

lemma Restore_checks:
  assumes "tbl_sorted (nodes (state c))"
    and "(Node.Node n, reindex L n) \<in> set (nodes (state c))"
    and "tbl_sorted (checks (state c) @ rows)"
    and "\<forall>row \<in> set rows.
           fst (fst row) = Node.Node n
           \<and> HealthCheck.Node (snd row) = Node.Node n
           \<and> HealthCheck.CheckID (snd row) = snd (fst row)
           \<and> Status (snd row) \<noteq> []
           \<and> ((HealthCheck.ServiceID (snd row) = [] \<and> g (snd row) = snd row)
              \<or> (\<exists>svc. HealthCheck.ServiceID (snd row) \<noteq> []
                    \<and> tbl_first (services (state c))
                          (Node.Node n, HealthCheck.ServiceID (snd row)) = Some svc
                    \<and> g (snd row) = (snd row)\<lparr>ServiceName := NodeService.Service svc\<rparr>))"
    and "catalog_rows L (state c)"
  shows "\<exists>c'. Restore_loop consul_store \<lparr>LastIndex = L\<rparr>
                (map (\<lambda>hc. register_frame
                        ((node_request n)\<lparr>RegisterRequest.Service := None, Check := Some hc\<rparr>))
                   (tbl_rows rows)) c = (None, c')
           \<and> nodes (state c') = nodes (state c)
           \<and> services (state c') = services (state c)
           \<and> checks (state c')
               = checks (state c) @ map (\<lambda>row. (fst row, reindex L (g (snd row)))) rows
           \<and> same_others (state c') (state c)
           \<and> catalog_rows L (state c')"
  using assms
proof (induction rows arbitrary: c)
  case Nil
  then show ?case by (simp add: tbl_rows_def)
next
  case (Cons row rows)
  let ?st = "state c"
  obtain hc where row: "row = ((Node.Node n, HealthCheck.CheckID hc), hc)"
    using Cons.prems(4) by (cases row) auto
  have lt: "\<forall>k' \<in> fst ` set (checks ?st). k' < (Node.Node n, HealthCheck.CheckID hc)"
    using Cons.prems(3) by (auto simp: tbl_sorted_append row)
  have h: "HealthCheck.Node hc = Node.Node n" "Status hc \<noteq> []"
    "(HealthCheck.ServiceID hc = [] \<and> g hc = hc)
     \<or> (\<exists>svc. HealthCheck.ServiceID hc \<noteq> []
           \<and> tbl_first (services ?st) (Node.Node n, HealthCheck.ServiceID hc) = Some svc
           \<and> g hc = hc\<lparr>ServiceName := NodeService.Service svc\<rparr>)"
    using Cons.prems(4) by (simp_all add: row)
  from EnsureRegistration_new_check [OF Cons.prems(1,2) lt h Cons.prems(5)] obtain st' where
    st': "EnsureRegistration L
            ((node_request n)\<lparr>RegisterRequest.Service := None, Check := Some hc\<rparr>) ?st = Inr st'"
      "nodes st' = nodes ?st" "services st' = services ?st"
      "checks st' = checks ?st @ [((Node.Node n, HealthCheck.CheckID hc), reindex L (g hc))]"
      "same_others st' ?st" "catalog_rows L st'"
    by blast
  let ?c1 = "c\<lparr>state := st'\<rparr>"
  have p1: "tbl_sorted (nodes (state ?c1))" using Cons.prems(1) st'(2) by simp
  have p2: "(Node.Node n, reindex L n) \<in> set (nodes (state ?c1))"
    using Cons.prems(2) st'(2) by simp
  have p3: "tbl_sorted (checks (state ?c1) @ rows)"
    using Cons.prems(3) tbl_sorted_same_keys [of "checks (state ?c1) @ rows" "checks ?st @ row # rows"]
    by (simp add: st'(4) row)
  have p4: "\<forall>row \<in> set rows.
           fst (fst row) = Node.Node n
           \<and> HealthCheck.Node (snd row) = Node.Node n
           \<and> HealthCheck.CheckID (snd row) = snd (fst row)
           \<and> Status (snd row) \<noteq> []
           \<and> ((HealthCheck.ServiceID (snd row) = [] \<and> g (snd row) = snd row)
              \<or> (\<exists>svc. HealthCheck.ServiceID (snd row) \<noteq> []
                    \<and> tbl_first (services (state ?c1))
                          (Node.Node n, HealthCheck.ServiceID (snd row)) = Some svc
                    \<and> g (snd row) = (snd row)\<lparr>ServiceName := NodeService.Service svc\<rparr>))"
    using Cons.prems(4) by (simp add: st'(3))
  have p5: "catalog_rows L (state ?c1)" using st'(6) by simp
  from Cons.IH [OF p1 p2 p3 p4 p5] obtain c' where
    c': "Restore_loop consul_store \<lparr>LastIndex = L\<rparr>
           (map (\<lambda>hc. register_frame
                   ((node_request n)\<lparr>RegisterRequest.Service := None, Check := Some hc\<rparr>))
              (tbl_rows rows)) ?c1 = (None, c')"
      "nodes (state c') = nodes (state ?c1)"
      "services (state c') = services (state ?c1)"
      "checks (state c')
         = checks (state ?c1) @ map (\<lambda>row. (fst row, reindex L (g (snd row)))) rows"
      "same_others (state c') (state ?c1)"
      "catalog_rows L (state c')"
    by blast
  have so: "same_others (state c') ?st"
    using same_others_trans [OF c'(5)] st'(5) by simp
  show ?case
    using c' st'(2-4) so Restore_loop_register [OF st'(1)]
    by (simp add: tbl_rows_def row)
qed

lemma tbl_sorted_after_node:
  fixes t :: "('a::linorder \<times> 'b::linorder, 'v) table"
  assumes "tbl_sorted t" and "tbl_sorted u"
    and "\<forall>key \<in> fst ` set t. fst key < k" and "\<forall>key \<in> fst ` set u. fst key = k"
  shows "tbl_sorted (t @ u)"
  unfolding tbl_sorted_append
proof (intro conjI ballI)
  fix a b assume "a \<in> fst ` set t" "b \<in> fst ` set u"
  with assms(3,4) have "fst a < k" "fst b = k" by blast+
  then show "a < b" by (cases a, cases b) simp
qed (use assms in simp_all)

lemma store_wf_service_rows:
  assumes "store_wf s"
  shows "\<forall>row \<in> set (filter (\<lambda>row. fst (fst row) = k) (services s)).
           fst (fst row) = k \<and> NodeService.ID (snd row) = snd (fst row)"
  using assms by (simp add: store_wf_def)

lemma store_wf_check_rows:
  assumes "store_wf s" and "row \<in> set (checks s)"
  shows "HealthCheck.Node (snd row) = fst (fst row)"
    and "HealthCheck.CheckID (snd row) = snd (fst row)"
    and "Status (snd row) \<noteq> []"
    and "HealthCheck.ServiceID (snd row) = []
         \<or> (\<exists>svc. tbl_first (services s) (fst (fst row), HealthCheck.ServiceID (snd row))
                    = Some svc)"
proof -
  from assms have r: "HealthCheck.Node (snd row) = fst (fst row)
           \<and> HealthCheck.CheckID (snd row) = snd (fst row)
           \<and> Status (snd row) \<noteq> []
           \<and> tbl_first (nodes s) (fst (fst row)) \<noteq> None
           \<and> (HealthCheck.ServiceID (snd row) = []
              \<or> tbl_first (services s) (fst (fst row), HealthCheck.ServiceID (snd row)) \<noteq> None)"
    unfolding store_wf_def by blast
  from r show "HealthCheck.Node (snd row) = fst (fst row)"
    "HealthCheck.CheckID (snd row) = snd (fst row)" "Status (snd row) \<noteq> []"
    by simp_all
  from r show "HealthCheck.ServiceID (snd row) = []
         \<or> (\<exists>svc. tbl_first (services s) (fst (fst row), HealthCheck.ServiceID (snd row))
                    = Some svc)"
    by auto
qed

lemma restored_check_named: "restored_check L s hc = reindex L (named_check s hc)"
  by (simp add: restored_check_def)

lemma Restore_node:
  assumes wf: "store_wf s"
    and n1: "tbl_sorted (nodes (state c))"
    and n2: "\<forall>k' \<in> fst ` set (nodes (state c)). k' < Node.Node n"
    and s1: "tbl_sorted (services (state c))"
    and s2: "\<forall>key \<in> fst ` set (services (state c)). fst key < Node.Node n"
    and h1: "tbl_sorted (checks (state c))"
    and h2: "\<forall>key \<in> fst ` set (checks (state c)). fst key < Node.Node n"
    and cr: "catalog_rows L (state c)"
  shows "\<exists>c'. Restore_loop consul_store \<lparr>LastIndex = L\<rparr> (node_frames s n) c = (None, c')
           \<and> nodes (state c') = nodes (state c) @ [(Node.Node n, reindex L n)]
           \<and> services (state c')
               = services (state c)
                 @ reindex_rows L (filter (\<lambda>row. fst (fst row) = Node.Node n) (services s))
           \<and> checks (state c')
               = checks (state c)
                 @ map (\<lambda>row. (fst row, restored_check L s (snd row)))
                     (filter (\<lambda>row. fst (fst row) = Node.Node n) (checks s))
           \<and> tbl_sorted (services (state c')) \<and> tbl_sorted (checks (state c'))
           \<and> same_others (state c') (state c)
           \<and> catalog_rows L (state c')"
proof -
  let ?k = "Node.Node n"
  let ?st = "state c"
  let ?srows = "filter (\<lambda>row. fst (fst row) = ?k) (services s)"
  let ?crows = "filter (\<lambda>row. fst (fst row) = ?k) (checks s)"
  let ?sf = "map (\<lambda>srv. register_frame ((node_request n)\<lparr>RegisterRequest.Service := Some srv\<rparr>))
               (tbl_rows ?srows)"
  let ?cf = "map (\<lambda>hc. register_frame
                    ((node_request n)\<lparr>RegisterRequest.Service := None, Check := Some hc\<rparr>))
               (tbl_rows ?crows)"
  have frames: "node_frames s n = register_frame (node_request n) # (?sf @ ?cf)"
    by (simp add: node_frames_def ServiceDump_def CheckDump_def)
  from wf have ws: "tbl_sorted (services s)" and wc: "tbl_sorted (checks s)"
    by (simp_all add: store_wf_def)
  \<comment> \<open>the node\<close>
  from EnsureRegistration_new_node [OF n2 cr] obtain st1 where
    st1: "EnsureRegistration L (node_request n) ?st = Inr st1"
      "nodes st1 = nodes ?st @ [(?k, reindex L n)]"
      "services st1 = services ?st" "checks st1 = checks ?st"
      "same_others st1 ?st" "catalog_rows L st1"
    by blast
  let ?c1 = "c\<lparr>state := st1\<rparr>"
  have a1: "tbl_sorted (nodes (state ?c1))"
    using n1 n2 by (auto simp: st1(2) tbl_sorted_def sorted_wrt_append)
  have a2: "(?k, reindex L n) \<in> set (nodes (state ?c1))"
    by (simp add: st1(2))
  \<comment> \<open>its services\<close>
  have a3: "tbl_sorted (services (state ?c1) @ ?srows)"
    using tbl_sorted_after_node [OF s1 tbl_sorted_filter [OF ws] s2, of "\<lambda>row. fst (fst row) = ?k"]
    by (auto simp: st1(3))
  have a5: "catalog_rows L (state ?c1)" using st1(6) by simp
  from Restore_services [OF a1 a2 a3 store_wf_service_rows [OF wf] a5] obtain c2 where
    c2: "Restore_loop consul_store \<lparr>LastIndex = L\<rparr> ?sf ?c1 = (None, c2)"
      "nodes (state c2) = nodes (state ?c1)"
      "services (state c2) = services (state ?c1) @ reindex_rows L ?srows"
      "checks (state c2) = checks (state ?c1)"
      "same_others (state c2) (state ?c1)"
      "catalog_rows L (state c2)"
    by blast
  have s_sorted: "tbl_sorted (services (state c2))"
    using a3 tbl_sorted_same_keys [of "services (state c2)" "services (state ?c1) @ ?srows"]
    by (simp add: c2(3))
  \<comment> \<open>its checks\<close>
  have b1: "tbl_sorted (nodes (state c2))" using a1 c2(2) by simp
  have b2: "(?k, reindex L n) \<in> set (nodes (state c2))" using a2 c2(2) by simp
  have b3: "tbl_sorted (checks (state c2) @ ?crows)"
    using tbl_sorted_after_node [OF h1 tbl_sorted_filter [OF wc] h2, of "\<lambda>row. fst (fst row) = ?k"]
    by (auto simp: st1(4) \<open>checks (state c2) = checks (state ?c1)\<close>)
  have b4: "\<forall>row \<in> set ?crows.
           fst (fst row) = ?k
           \<and> HealthCheck.Node (snd row) = ?k
           \<and> HealthCheck.CheckID (snd row) = snd (fst row)
           \<and> Status (snd row) \<noteq> []
           \<and> ((HealthCheck.ServiceID (snd row) = [] \<and> named_check s (snd row) = snd row)
              \<or> (\<exists>svc. HealthCheck.ServiceID (snd row) \<noteq> []
                    \<and> tbl_first (services (state c2))
                          (?k, HealthCheck.ServiceID (snd row)) = Some svc
                    \<and> named_check s (snd row)
                        = (snd row)\<lparr>ServiceName := NodeService.Service svc\<rparr>))"
  proof
    fix row assume "row \<in> set ?crows"
    then have r: "row \<in> set (checks s)" and k: "fst (fst row) = ?k" by simp_all
    note w = store_wf_check_rows [OF wf r]
    have "(HealthCheck.ServiceID (snd row) = [] \<and> named_check s (snd row) = snd row)
          \<or> (\<exists>svc. HealthCheck.ServiceID (snd row) \<noteq> []
                \<and> tbl_first (services (state c2)) (?k, HealthCheck.ServiceID (snd row)) = Some svc
                \<and> named_check s (snd row) = (snd row)\<lparr>ServiceName := NodeService.Service svc\<rparr>)"
    proof (cases "HealthCheck.ServiceID (snd row) = []")
      case True
      then show ?thesis by (simp add: named_check_def)
    next
      case False
      with w(4) k obtain svc where
        svc: "tbl_first (services s) (?k, HealthCheck.ServiceID (snd row)) = Some svc"
        by auto
      then have "((?k, HealthCheck.ServiceID (snd row)), svc) \<in> set (services s)"
        by (rule tbl_first_mem)
      then have "((?k, HealthCheck.ServiceID (snd row)), reindex L svc)
                   \<in> set (reindex_rows L ?srows)"
        by (force simp: reindex_rows_def)
      then have "((?k, HealthCheck.ServiceID (snd row)), reindex L svc) \<in> set (services (state c2))"
        by (simp add: c2(3))
      from tbl_first_sorted_mem [OF s_sorted this]
      have "tbl_first (services (state c2)) (?k, HealthCheck.ServiceID (snd row))
              = Some (reindex L svc)" .
      moreover have "named_check s (snd row)
                       = (snd row)\<lparr>ServiceName := NodeService.Service (reindex L svc)\<rparr>"
        using False svc w(1) k by (simp add: named_check_def reindex_def)
      ultimately show ?thesis using False by blast
    qed
    with w k show "fst (fst row) = ?k
           \<and> HealthCheck.Node (snd row) = ?k
           \<and> HealthCheck.CheckID (snd row) = snd (fst row)
           \<and> Status (snd row) \<noteq> []
           \<and> ((HealthCheck.ServiceID (snd row) = [] \<and> named_check s (snd row) = snd row)
              \<or> (\<exists>svc. HealthCheck.ServiceID (snd row) \<noteq> []
                    \<and> tbl_first (services (state c2))
                          (?k, HealthCheck.ServiceID (snd row)) = Some svc
                    \<and> named_check s (snd row)
                        = (snd row)\<lparr>ServiceName := NodeService.Service svc\<rparr>))"
      by simp
  qed
  from Restore_checks [OF b1 b2 b3 b4 c2(6)] obtain c3 where
    c3: "Restore_loop consul_store \<lparr>LastIndex = L\<rparr> ?cf c2 = (None, c3)"
      "nodes (state c3) = nodes (state c2)"
      "services (state c3) = services (state c2)"
      "checks (state c3)
         = checks (state c2) @ map (\<lambda>row. (fst row, reindex L (named_check s (snd row)))) ?crows"
      "same_others (state c3) (state c2)"
      "catalog_rows L (state c3)"
    by blast
  have c_sorted: "tbl_sorted (checks (state c3))"
    using b3 tbl_sorted_same_keys [of "checks (state c3)" "checks (state c2) @ ?crows"]
    by (simp add: c3(4) comp_def)
  have so: "same_others (state c3) ?st"
    using same_others_trans [OF c3(5) same_others_trans [OF c2(5)]] st1(5) by simp
  have run: "Restore_loop consul_store \<lparr>LastIndex = L\<rparr> (node_frames s n) c = (None, c3)"
    unfolding frames Restore_loop_register [OF st1(1)] Restore_loop_append
    by (simp add: c2(1) c3(1))
  show ?thesis
    using run c3(2-4,6) c2(2-4) st1(2-4) s_sorted c_sorted so
    by (simp add: restored_check_named)
qed

lemma Restore_nodes:
  assumes wf: "store_wf s"
    and "tbl_sorted (nodes (state c) @ nrows)"
    and "\<forall>row \<in> set nrows. Node.Node (snd row) = fst row"
    and "tbl_sorted (services (state c))" and "tbl_sorted (checks (state c))"
    and "\<forall>key \<in> fst ` set (services (state c)). \<forall>row \<in> set nrows. fst key < fst row"
    and "\<forall>key \<in> fst ` set (checks (state c)). \<forall>row \<in> set nrows. fst key < fst row"
    and "catalog_rows L (state c)"
  shows "\<exists>c'. Restore_loop consul_store \<lparr>LastIndex = L\<rparr>
                (concat (map (node_frames s) (tbl_rows nrows))) c = (None, c')
           \<and> nodes (state c') = nodes (state c) @ reindex_rows L nrows
           \<and> services (state c')
               = services (state c)
                 @ reindex_rows L
                     (concat (map (\<lambda>row. filter (\<lambda>r. fst (fst r) = fst row) (services s)) nrows))
           \<and> checks (state c')
               = checks (state c)
                 @ map (\<lambda>row. (fst row, restored_check L s (snd row)))
                     (concat (map (\<lambda>row. filter (\<lambda>r. fst (fst r) = fst row) (checks s)) nrows))
           \<and> same_others (state c') (state c)
           \<and> catalog_rows L (state c')"
  using assms(2-)
proof (induction nrows arbitrary: c)
  case Nil
  then show ?case by (simp add: tbl_rows_def)
next
  case (Cons row nrows)
  let ?st = "state c"
  obtain n where row: "row = (Node.Node n, n)"
    using Cons.prems(2) by (cases row) auto
  let ?k = "Node.Node n"
  have n1: "tbl_sorted (nodes ?st)" and n2: "\<forall>k' \<in> fst ` set (nodes ?st). k' < ?k"
    and later: "\<forall>k' \<in> fst ` set nrows. ?k < k'"
    using Cons.prems(1) by (auto simp: tbl_sorted_append tbl_sorted_Cons row)
  have s2: "\<forall>key \<in> fst ` set (services ?st). fst key < ?k"
    using Cons.prems(5) by (simp add: row)
  have h2: "\<forall>key \<in> fst ` set (checks ?st). fst key < ?k"
    using Cons.prems(6) by (simp add: row)
  from Restore_node [OF wf n1 n2 Cons.prems(3) s2 Cons.prems(4) h2 Cons.prems(7)] obtain c1 where
    c1: "Restore_loop consul_store \<lparr>LastIndex = L\<rparr> (node_frames s n) c = (None, c1)"
      "nodes (state c1) = nodes ?st @ [(?k, reindex L n)]"
      "services (state c1)
         = services ?st @ reindex_rows L (filter (\<lambda>row. fst (fst row) = ?k) (services s))"
      "checks (state c1)
         = checks ?st @ map (\<lambda>row. (fst row, restored_check L s (snd row)))
                          (filter (\<lambda>row. fst (fst row) = ?k) (checks s))"
      "tbl_sorted (services (state c1))" "tbl_sorted (checks (state c1))"
      "same_others (state c1) ?st" "catalog_rows L (state c1)"
    by blast
  have p1: "tbl_sorted (nodes (state c1) @ nrows)"
    using Cons.prems(1)
      tbl_sorted_same_keys [of "nodes (state c1) @ nrows" "nodes ?st @ row # nrows"]
    by (simp add: c1(2) row)
  have p2: "\<forall>row \<in> set nrows. Node.Node (snd row) = fst row"
    using Cons.prems(2) by simp
  have p5: "\<forall>key \<in> fst ` set (services (state c1)). \<forall>row \<in> set nrows. fst key < fst row"
  proof (intro ballI)
    fix key r assume key: "key \<in> fst ` set (services (state c1))" and r: "r \<in> set nrows"
    from r later have "?k < fst r" by simp
    moreover from key have "key \<in> fst ` set (services ?st)
        \<or> key \<in> fst ` set (filter (\<lambda>row. fst (fst row) = ?k) (services s))"
      by (simp add: c1(3) image_Un)
    then have "fst key < fst r \<or> fst key = ?k"
      using Cons.prems(5) r by auto
    ultimately show "fst key < fst r" by auto
  qed
  have p6: "\<forall>key \<in> fst ` set (checks (state c1)). \<forall>row \<in> set nrows. fst key < fst row"
  proof (intro ballI)
    fix key r assume key: "key \<in> fst ` set (checks (state c1))" and r: "r \<in> set nrows"
    from r later have "?k < fst r" by simp
    moreover from key have "key \<in> fst ` set (checks ?st)
        \<or> key \<in> fst ` set (filter (\<lambda>row. fst (fst row) = ?k) (checks s))"
      by (force simp: c1(4) image_Un)
    then have "fst key < fst r \<or> fst key = ?k"
      using Cons.prems(6) r by auto
    ultimately show "fst key < fst r" by auto
  qed
  from Cons.IH [OF p1 p2 c1(5,6) p5 p6 c1(8)] obtain c' where
    c': "Restore_loop consul_store \<lparr>LastIndex = L\<rparr>
           (concat (map (node_frames s) (tbl_rows nrows))) c1 = (None, c')"
      "nodes (state c') = nodes (state c1) @ reindex_rows L nrows"
      "services (state c')
         = services (state c1)
           @ reindex_rows L
               (concat (map (\<lambda>row. filter (\<lambda>r. fst (fst r) = fst row) (services s)) nrows))"
      "checks (state c')
         = checks (state c1)
           @ map (\<lambda>row. (fst row, restored_check L s (snd row)))
               (concat (map (\<lambda>row. filter (\<lambda>r. fst (fst r) = fst row) (checks s)) nrows))"
      "same_others (state c') (state c1)"
      "catalog_rows L (state c')"
    by blast
  have so: "same_others (state c') ?st"
    using same_others_trans [OF c'(5) c1(7)] .
  have run: "Restore_loop consul_store \<lparr>LastIndex = L\<rparr>
               (concat (map (node_frames s) (tbl_rows (row # nrows)))) c = (None, c')"
    by (simp add: tbl_rows_def row Restore_loop_append c1(1)) (use c'(1) in \<open>simp add: tbl_rows_def\<close>)
  show ?case
    using run c'(2-4,6) c1(2-4) so by (simp add: row)
qed

lemma filter_node_split:
  fixes t :: "('a::linorder \<times> 'b::linorder, 'v) table"
  assumes "tbl_sorted t" and "\<forall>row \<in> set t. k \<le> fst (fst row)"
  shows "filter (\<lambda>r. fst (fst r) = k) t @ filter (\<lambda>r. fst (fst r) \<noteq> k) t = t"
  using assms
proof (induction t)
  case Nil
  then show ?case by simp
next
  case (Cons row t)
  obtain key v where row: "row = (key, v)" by (cases row)
  from Cons.prems have st: "tbl_sorted t" and lt: "\<forall>k' \<in> fst ` set t. key < k'"
    and ge: "\<forall>row \<in> set t. k \<le> fst (fst row)" and gek: "k \<le> fst key"
    by (simp_all add: row tbl_sorted_Cons)
  show ?case
  proof (cases "fst key = k")
    case True
    then show ?thesis using Cons.IH [OF st ge] by (simp add: row)
  next
    case False
    with gek have "k < fst key" by simp
    have "k < fst (fst r)" if "r \<in> set t" for r
    proof -
      from that lt have "key < fst r" by simp
      then have "fst key \<le> fst (fst r)" by (cases key, cases "fst r") auto
      with \<open>k < fst key\<close> show ?thesis by simp
    qed
    then have "filter (\<lambda>r. fst (fst r) = k) t = []" "filter (\<lambda>r. fst (fst r) \<noteq> k) t = t"
      by (auto simp: filter_empty_conv filter_id_conv)
    with False show ?thesis by (simp add: row)
  qed
qed

lemma concat_node_filters:
  fixes t :: "('a::linorder \<times> 'b::linorder, 'v) table"
  assumes "tbl_sorted nrows" and "tbl_sorted t"
    and "\<forall>row \<in> set t. fst (fst row) \<in> fst ` set nrows"
  shows "concat (map (\<lambda>row. filter (\<lambda>r. fst (fst r) = fst row) t) nrows) = t"
  using assms
proof (induction nrows arbitrary: t)
  case Nil
  have "t = []"
  proof (rule ccontr)
    assume "t \<noteq> []"
    then obtain r where "r \<in> set t" by (cases t) auto
    from Nil.prems(3) [rule_format, OF this] show False by simp
  qed
  then show ?case by simp
next
  case (Cons row nrows)
  obtain k v where row: "row = (k, v)" by (cases row)
  let ?t' = "filter (\<lambda>r. fst (fst r) \<noteq> k) t"
  from Cons.prems(1) have sn: "tbl_sorted nrows" and lt: "\<forall>k' \<in> fst ` set nrows. k < k'"
    by (simp_all add: row tbl_sorted_Cons)
  have in': "\<forall>row \<in> set ?t'. fst (fst row) \<in> fst ` set nrows"
  proof
    fix r assume "r \<in> set ?t'"
    then have "r \<in> set t" "fst (fst r) \<noteq> k" by simp_all
    with Cons.prems(3) [rule_format, OF this(1)] show "fst (fst r) \<in> fst ` set nrows"
      by (simp add: row)
  qed
  have ih: "concat (map (\<lambda>row. filter (\<lambda>r. fst (fst r) = fst row) ?t') nrows) = ?t'"
    using Cons.IH [OF sn tbl_sorted_filter [OF Cons.prems(2)] in'] .
  have same: "map (\<lambda>row. filter (\<lambda>r. fst (fst r) = fst row) ?t') nrows
              = map (\<lambda>row. filter (\<lambda>r. fst (fst r) = fst row) t) nrows"
  proof (rule map_cong [OF refl])
    fix r assume "r \<in> set nrows"
    with lt have "k < fst r" by simp
    then show "filter (\<lambda>x. fst (fst x) = fst r) ?t' = filter (\<lambda>x. fst (fst x) = fst r) t"
      by (auto intro: filter_cong)
  qed
  have ge: "\<forall>row \<in> set t. k \<le> fst (fst row)"
  proof
    fix r assume "r \<in> set t"
    from Cons.prems(3) [rule_format, OF this]
    have "fst (fst r) = k \<or> fst (fst r) \<in> fst ` set nrows" by (simp add: row)
    with lt show "k \<le> fst (fst r)" by (auto simp: less_imp_le)
  qed
  have "concat (map (\<lambda>row. filter (\<lambda>r. fst (fst r) = fst row) t) nrows) = ?t'"
    using ih unfolding same .
  then show ?case
    using filter_node_split [OF Cons.prems(2) ge] by (simp add: row)
qed

lemma snapshot_restore_tables:
  assumes wf: "store_wf s" and io: "reliable io"
  shows "\<exists>c'. snapshot_restore io s = (None, c')
           \<and> nodes (state c') = reindex_rows (StoreLastIndex s) (nodes s)
           \<and> services (state c') = reindex_rows (StoreLastIndex s) (services s)
           \<and> checks (state c')
               = map (\<lambda>row. (fst row, restored_check (StoreLastIndex s) s (snd row))) (checks s)
           \<and> kvs (state c') = kvs s \<and> tombstones (state c') = tombstones s
           \<and> sessions (state c') = sessions s \<and> acls (state c') = acls s
           \<and> catalog_rows (StoreLastIndex s) (state c')
           \<and> IndexRow (state c') ''sessions'' = max_of (map ModifyIndex (tbl_rows (sessions s)))"
proof -
  let ?L = "StoreLastIndex s"
  let ?h = "\<lparr>LastIndex = ?L\<rparr>"
  let ?A = "concat (map (node_frames s) (tbl_rows (nodes s)))"
  let ?B = "map (\<lambda>x. Frame SessionRequestType (PSession x)) (tbl_rows (sessions s))"
  let ?C = "map (\<lambda>x. Frame ACLRequestType (PACL x)) (tbl_rows (acls s))"
  let ?D = "map (\<lambda>x. Frame KVSRequestType (PDirEntry x)) (tbl_rows (kvs s))"
  let ?E = "map (\<lambda>x. Frame TombstoneRequestType (PDirEntry (fake_DirEntry x)))
              (tbl_rows (tombstones s))"
  have frames: "snapshot_frames s = ?A @ ?B @ ?C @ ?D @ ?E"
    by (simp add: snapshot_frames_def NodeDump_def SessionDump_def ACLDump_def KVSDump_def
        TombstoneDump_def)
  have st0: "state NewFSM = NewStateStore" by (simp add: NewFSM_def)
  have e: "nodes NewStateStore = []" "services NewStateStore = []" "checks NewStateStore = []"
    "kvs NewStateStore = []" "tombstones NewStateStore = []" "sessions NewStateStore = []"
    "acls NewStateStore = []" "catalog_rows ?L NewStateStore"
    "IndexRow NewStateStore ''sessions'' = 0"
    by (simp_all add: NewStateStore_def IndexRow_def tbl_first_def catalog_rows_def)
  from wf have sorted: "tbl_sorted (nodes s)" "tbl_sorted (services s)" "tbl_sorted (checks s)"
    "tbl_sorted (kvs s)" "tbl_sorted (tombstones s)" "tbl_sorted (sessions s)"
    "tbl_sorted (acls s)"
    and keyed: "\<forall>row \<in> set (nodes s). Node.Node (snd row) = fst row"
    "\<forall>row \<in> set (kvs s). DirEntry.Key (snd row) = fst row"
    "\<forall>row \<in> set (tombstones s). Tombstone.Key (snd row) = fst row"
    "\<forall>row \<in> set (sessions s). Session.ID (snd row) = fst row"
    "\<forall>row \<in> set (acls s). ACL.ID (snd row) = fst row"
    by (simp_all add: store_wf_def)
  have sn: "\<forall>row \<in> set (services s). fst (fst row) \<in> fst ` set (nodes s)"
    using wf by (simp add: store_wf_def tbl_first_None_iff)
  have cn: "\<forall>row \<in> set (checks s). fst (fst row) \<in> fst ` set (nodes s)"
    using wf by (simp add: store_wf_def tbl_first_None_iff)
  \<comment> \<open>the catalog\<close>
  have "\<exists>c'. Restore_loop consul_store ?h ?A NewFSM = (None, c')
           \<and> nodes (state c') = nodes (state NewFSM) @ reindex_rows ?L (nodes s)
           \<and> services (state c')
               = services (state NewFSM)
                 @ reindex_rows ?L
                     (concat (map (\<lambda>row. filter (\<lambda>r. fst (fst r) = fst row) (services s))
                        (nodes s)))
           \<and> checks (state c')
               = checks (state NewFSM)
                 @ map (\<lambda>row. (fst row, restored_check ?L s (snd row)))
                     (concat (map (\<lambda>row. filter (\<lambda>r. fst (fst r) = fst row) (checks s))
                        (nodes s)))
           \<and> same_others (state c') (state NewFSM)
           \<and> catalog_rows ?L (state c')"
    by (rule Restore_nodes [OF wf]) (simp_all add: st0 e sorted keyed, simp_all add: tbl_sorted_def)
  then obtain cA where
    cA: "Restore_loop consul_store ?h ?A NewFSM = (None, cA)"
      "nodes (state cA) = reindex_rows ?L (nodes s)"
      "services (state cA) = reindex_rows ?L (services s)"
      "checks (state cA) = map (\<lambda>row. (fst row, restored_check ?L s (snd row))) (checks s)"
      "kvs (state cA) = []" "tombstones (state cA) = []" "sessions (state cA) = []"
      "acls (state cA) = []"
      "catalog_rows ?L (state cA)"
      "IndexRow (state cA) ''sessions'' = 0"
    unfolding concat_node_filters [OF sorted(1,2) sn] concat_node_filters [OF sorted(1,3) cn]
    by (auto simp: st0 e same_others_def)
  \<comment> \<open>the sessions\<close>
  from Restore_sessions [of ?h "tbl_rows (sessions s)" cA] obtain cB where
    cB: "Restore_loop consul_store ?h ?B cA = (None, cB)"
      "sessions (state cB) = sessions s" "same_catalog (state cB) (state cA)"
      "kvs (state cB) = []" "tombstones (state cB) = []" "acls (state cB) = []"
      "IndexRow (state cB) ''sessions'' = max_of (map ModifyIndex (tbl_rows (sessions s)))"
    using fold_rows_keyed [OF sorted(6) keyed(4)] by (auto simp: cA)
  \<comment> \<open>the ACLs\<close>
  from Restore_acls [of ?h "tbl_rows (acls s)" cB] obtain cC where
    cC: "Restore_loop consul_store ?h ?C cB = (None, cC)"
      "acls (state cC) = acls s" "same_catalog (state cC) (state cB)"
      "kvs (state cC) = []" "tombstones (state cC) = []" "sessions (state cC) = sessions s"
      "IndexRow (state cC) ''sessions'' = IndexRow (state cB) ''sessions''"
    using fold_rows_keyed [OF sorted(7) keyed(5)] by (auto simp: cB)
  \<comment> \<open>the K/V entries\<close>
  from Restore_kvs [of ?h "tbl_rows (kvs s)" cC] obtain cD where
    cD: "Restore_loop consul_store ?h ?D cC = (None, cD)"
      "kvs (state cD) = kvs s" "same_catalog (state cD) (state cC)"
      "acls (state cD) = acls s" "tombstones (state cD) = []" "sessions (state cD) = sessions s"
      "IndexRow (state cD) ''sessions'' = IndexRow (state cC) ''sessions''"
    using fold_rows_keyed [OF sorted(4) keyed(2)] by (auto simp: cC)
  \<comment> \<open>the tombstones\<close>
  from Restore_tombstones [of ?h "tbl_rows (tombstones s)" cD] obtain cE where
    cE: "Restore_loop consul_store ?h ?E cD = (None, cE)"
      "tombstones (state cE) = tombstones s" "same_catalog (state cE) (state cD)"
      "acls (state cE) = acls s" "kvs (state cE) = kvs s" "sessions (state cE) = sessions s"
      "IndexRow (state cE) ''sessions'' = IndexRow (state cD) ''sessions''"
    using fold_rows_keyed [OF sorted(5) keyed(3)] by (auto simp: cD)
  have run: "snapshot_restore io s = (None, cE)"
    unfolding snapshot_restore_run [OF io] frames Restore_loop_append
    by (simp add: cA(1) cB(1) cC(1) cD(1) cE(1))
  have cat: "same_catalog (state cE) (state cA)"
    using same_catalog_trans [OF cE(3) same_catalog_trans [OF cD(3) same_catalog_trans [OF cC(3) cB(3)]]] .
  have rows: "catalog_rows ?L (state cE)"
    using cat cA(9) by (simp add: same_catalog_def catalog_rows_def)
  show ?thesis
    using run cat rows cA(2-4) cE(2,4-7) cD(7) cC(7) cB(7) by (simp add: same_catalog_def)
qed

lemma max_of_reindex:
  "max_of (map ModifyIndex (map (reindex L) xs)) = (if xs = [] then 0 else L)"
proof (cases xs)
  case Nil
  then show ?thesis by (simp add: max_of_def)
next
  case (Cons x xs')
  have m: "ModifyIndex (reindex L y) = L" for y :: "'a RaftIndex_scheme"
    by (simp add: reindex_def)
  have "set (map ModifyIndex (map (reindex L) xs)) = (\<lambda>y. L) ` set xs"
    by (simp add: m image_image)
  also have "\<dots> = {L}"
    by (auto simp: Cons)
  finally have "set (map ModifyIndex (map (reindex L) xs)) = {L}" .
  then have "max_of (map ModifyIndex (map (reindex L) xs)) = Max {0, L}"
    unfolding max_of_Max by simp
  then show ?thesis
    by (simp add: Cons)
qed

lemma max_of_reindex_comp:
  "max_of (map (ModifyIndex \<circ> reindex L) xs) = (if xs = [] then 0 else L)"
  using max_of_reindex [of L xs] by simp

lemma ModifyIndex_restored_check [simp]: "ModifyIndex (restored_check L s hc) = L"
  by (simp add: restored_check_def reindex_def)

lemma max_of_restored_check:
  "max_of (map ModifyIndex (map (restored_check L s) xs)) = (if xs = [] then 0 else L)"
proof (cases xs)
  case Nil
  then show ?thesis by simp
next
  case (Cons x xs')
  have "set (map ModifyIndex (map (restored_check L s) xs)) = (\<lambda>y. L) ` set xs"
    by (simp add: image_image)
  also have "\<dots> = {L}"
    by (auto simp: Cons)
  finally have "set (map ModifyIndex (map (restored_check L s) xs)) = {L}" .
  then have "max_of (map ModifyIndex (map (restored_check L s) xs)) = Max {0, L}"
    unfolding max_of_Max by simp
  then show ?thesis
    by (simp add: Cons)
qed

text \<open>
  C1 as the spec states it fails: \<^verbatim>\<open>Restore\<close> registers every node, service and
  check at the header's \<open>LastIndex\<close>. A node registered at index 1 in a store whose
  last index is 2 comes back with \<open>CreateIndex\<close> and \<open>ModifyIndex\<close> 2, and
  \<^verbatim>\<open>Nodes\<close> returns the result index 2 where the original returned 1.
\<close>

theorem snapshot_restore_counterexample:
  "fst (snapshot_restore buffer_io small_store) = None
   \<and> StoreLastIndex small_store = 2
   \<and> Nodes small_store
       = (1, [\<lparr>CreateIndex = 1, ModifyIndex = 1, Node.Node = ''foo'', Node.Address = []\<rparr>])
   \<and> Nodes (state (snd (snapshot_restore buffer_io small_store)))
       = (2, [\<lparr>CreateIndex = 2, ModifyIndex = 2, Node.Node = ''foo'', Node.Address = []\<rparr>])
   \<and> Nodes (state (snd (snapshot_restore buffer_io small_store))) \<noteq> Nodes small_store"
  by code_simp

text \<open>
  C1, as amended. For a store whose tables are well formed, and a sink and an encoder
  that do not fail, a snapshot that is persisted and restored into a new machine
  succeeds. On the restored store \<^verbatim>\<open>KVSGet\<close>, \<^verbatim>\<open>KVSList\<close> (with its result
  index, which counts the tombstones under the prefix) and \<^verbatim>\<open>ACLGet\<close> return what
  they return on the original. \<^verbatim>\<open>SessionGet\<close> returns the same session, and as its
  result index the largest \<open>ModifyIndex\<close> among the sessions of the store.
  \<^verbatim>\<open>Nodes\<close>, \<^verbatim>\<open>NodeServices\<close> and \<^verbatim>\<open>NodeChecks\<close> return the same nodes,
  services and checks, except that \<open>CreateIndex\<close> and \<open>ModifyIndex\<close> of each are the
  \<open>LastIndex\<close> of the original store and that a check which names a service carries the
  name that the service has in the original store; their result index is that
  \<open>LastIndex\<close> when the store holds a node, a service or a check respectively, and 0
  when it holds none.
\<close>

theorem snapshot_restore_reads:
  assumes "store_wf s" and "reliable io"
  shows "fst (snapshot_restore io s) = None
     \<and> (\<forall>key. KVSGet (restored io s) key = KVSGet s key)
     \<and> (\<forall>prefix. KVSList (restored io s) prefix = KVSList s prefix)
     \<and> (\<forall>sessionID. SessionGet (restored io s) sessionID
           = (max_of (map ModifyIndex (SessionDump s)), snd (SessionGet s sessionID)))
     \<and> (\<forall>aclID. ACLGet (restored io s) aclID = ACLGet s aclID)
     \<and> Nodes (restored io s)
         = (if nodes s = [] then 0 else StoreLastIndex s,
            map (reindex (StoreLastIndex s)) (snd (Nodes s)))
     \<and> (\<forall>node. NodeServices (restored io s) node
           = (if services s = [] then 0 else StoreLastIndex s,
              map_option (\<lambda>(n, svcs). (reindex (StoreLastIndex s) n,
                                        map (reindex (StoreLastIndex s)) svcs))
                (snd (NodeServices s node))))
     \<and> (\<forall>node. NodeChecks (restored io s) node
           = (if checks s = [] then 0 else StoreLastIndex s,
              map (restored_check (StoreLastIndex s) s) (snd (NodeChecks s node))))"
proof -
  let ?L = "StoreLastIndex s"
  from snapshot_restore_tables [OF assms] obtain c' where
    run: "snapshot_restore io s = (None, c')"
    and t: "nodes (state c') = reindex_rows ?L (nodes s)"
      "services (state c') = reindex_rows ?L (services s)"
      "checks (state c') = map (\<lambda>row. (fst row, restored_check ?L s (snd row))) (checks s)"
      "kvs (state c') = kvs s" "tombstones (state c') = tombstones s"
      "sessions (state c') = sessions s" "acls (state c') = acls s"
    and cr: "catalog_rows ?L (state c')"
    and si: "IndexRow (state c') ''sessions'' = max_of (map ModifyIndex (tbl_rows (sessions s)))"
    by blast
  have r: "restored io s = state c'" by (simp add: restored_def run)
  have i: "IndexRow (state c') ''nodes'' = (if nodes s = [] then 0 else ?L)"
    "IndexRow (state c') ''services'' = (if services s = [] then 0 else ?L)"
    "IndexRow (state c') ''checks'' = (if checks s = [] then 0 else ?L)"
    using cr by (simp_all add: catalog_rows_def t reindex_rows_def)
  have ok: "fst (snapshot_restore io s) = None" by (simp add: run)
  have kg: "KVSGet (restored io s) key = KVSGet s key" for key
    by (simp add: r KVSGet_def t)
  have kl: "KVSList (restored io s) prefix = KVSList s prefix" for prefix
    by (simp add: r KVSList_def t)
  have sg: "SessionGet (restored io s) sessionID
           = (max_of (map ModifyIndex (SessionDump s)), snd (SessionGet s sessionID))" for sessionID
    by (simp add: r SessionGet_def SessionDump_def t si)
  have ag: "ACLGet (restored io s) aclID = ACLGet s aclID" for aclID
    by (simp add: r ACLGet_def t)
  have ns: "Nodes (restored io s)
         = (if nodes s = [] then 0 else ?L, map (reindex ?L) (snd (Nodes s)))"
    by (simp add: r Nodes_def t i tbl_rows_reindex_rows)
  have sd: "ServiceDump (restored io s) node = map (reindex ?L) (ServiceDump s node)" for node
    using filter_reindex_rows [of "\<lambda>key. fst key = node" ?L "services s"]
    by (simp add: r ServiceDump_def t tbl_rows_reindex_rows)
  have cd: "CheckDump (restored io s) node = map (restored_check ?L s) (CheckDump s node)" for node
    by (simp add: r CheckDump_def t tbl_rows_def filter_map comp_def)
  have se: "services s = [] \<Longrightarrow> ServiceDump s node = []" for node
    by (simp add: ServiceDump_def tbl_rows_def)
  have ce: "checks s = [] \<Longrightarrow> CheckDump s node = []" for node
    by (simp add: CheckDump_def tbl_rows_def)
  have nsv: "NodeServices (restored io s) node
           = (if services s = [] then 0 else ?L,
              map_option (\<lambda>(n, svcs). (reindex ?L n, map (reindex ?L) svcs))
                (snd (NodeServices s node)))" for node
  proof -
    have n: "tbl_first (nodes (restored io s)) node = map_option (reindex ?L) (tbl_first (nodes s) node)"
      by (simp add: r t tbl_first_reindex_rows)
    have ix: "max (IndexRow (restored io s) ''services'')
                (max_of (map ModifyIndex (ServiceDump (restored io s) node)))
              = (if services s = [] then 0 else ?L)"
      using se [of node] by (simp add: r i sd [unfolded r] max_of_reindex max_of_reindex_comp)
    show ?thesis
      using ix by (cases "tbl_first (nodes s) node") (simp_all add: NodeServices_def n sd Let_def)
  qed
  have nc: "NodeChecks (restored io s) node
           = (if checks s = [] then 0 else ?L,
              map (restored_check ?L s) (snd (NodeChecks s node)))" for node
  proof -
    have ix: "max (IndexRow (restored io s) ''checks'')
                (max_of (map ModifyIndex (CheckDump (restored io s) node)))
              = (if checks s = [] then 0 else ?L)"
      using ce [of node] max_of_restored_check [of ?L s "CheckDump s node"]
      by (simp add: r i cd [unfolded r])
    show ?thesis
      using ix by (simp add: NodeChecks_def cd Let_def)
  qed
  show ?thesis
    using ok kg kl sg ag ns nsv nc by blast
qed

theorem snapshot_restore_reads_witness:
  "store_wf snapshot_test_store \<and> reliable buffer_io
   \<and> fst (snapshot_restore buffer_io snapshot_test_store) = None
   \<and> StoreLastIndex snapshot_test_store = 12
   \<and> KVSList (restored buffer_io snapshot_test_store) ''/remove'' = (12, [])
   \<and> map_option Value (KVSGet (restored buffer_io snapshot_test_store) ''/test'')
       = Some [102, 111, 111]
   \<and> fst (SessionGet (restored buffer_io snapshot_test_store) ''session1'') = 9
   \<and> fst (Nodes (restored buffer_io snapshot_test_store)) = 12
   \<and> map ModifyIndex (snd (Nodes (restored buffer_io snapshot_test_store))) = [12, 12]
   \<and> map ModifyIndex (snd (Nodes snapshot_test_store)) = [2, 1]
   \<and> NodeChecks (restored buffer_io snapshot_test_store) ''baz'' = (12, [])
   \<and> store_wf renamed_store
   \<and> map ServiceName (snd (NodeChecks renamed_store ''foo'')) = [''web'']
   \<and> map ServiceName (snd (NodeChecks (restored buffer_io renamed_store) ''foo'')) = [''web2'']"
proof -
  have io: "reliable buffer_io"
    by (simp add: reliable_def buffer_io_def)
  have wf: "store_wf snapshot_test_store"
    by code_simp
  have orig: "StoreLastIndex snapshot_test_store = 12"
    "KVSList snapshot_test_store ''/remove'' = (12, [])"
    "map_option Value (KVSGet snapshot_test_store ''/test'') = Some [102, 111, 111]"
    "map ModifyIndex (snd (Nodes snapshot_test_store)) = [2, 1]"
    "length (snd (Nodes snapshot_test_store)) = 2"
    "nodes snapshot_test_store \<noteq> []" "checks snapshot_test_store \<noteq> []"
    "snd (NodeChecks snapshot_test_store ''baz'') = []"
    "max_of (map ModifyIndex (SessionDump snapshot_test_store)) = 9"
    by code_simp+
  have re: "map ModifyIndex (map (reindex 12) (snd (Nodes snapshot_test_store))) = [12, 12]"
    using orig(5) by (cases "snd (Nodes snapshot_test_store)") (auto simp: reindex_def length_Suc_conv)
  have wf2: "store_wf renamed_store"
    by code_simp
  have ren: "map ServiceName (snd (NodeChecks renamed_store ''foo'')) = [''web'']"
    "map ServiceName
       (map (restored_check (StoreLastIndex renamed_store) renamed_store)
          (snd (NodeChecks renamed_store ''foo''))) = [''web2'']"
    by code_simp+
  show ?thesis
    using snapshot_restore_reads [OF wf io] snapshot_restore_reads [OF wf2 io] wf wf2 io orig re ren
    by auto
qed

end
